theory Spec2Isabelle
  imports Complex_Main "HOL-Library.AList" "HOL-Library.Sublist"
begin

section \<open>Values of the host language\<close>

text \<open>
  The library is JavaScript. Counters and timestamps are integral numbers and are modelled
  by \<open>nat\<close> and \<open>int\<close>. A quotient of two numbers is a double; it is modelled by an exact
  rational, with the three non-finite results a division by zero can give. No property
  below depends on the rounding of a quotient.
\<close>

datatype jsnum = Fin rat | PosInf | NegInf | NaN

text \<open>
  Arithmetic on these numbers. The model has a single zero; the quotient of a non-zero
  number by zero is taken with the sign of the numerator.
\<close>

fun js_quot :: "jsnum \<Rightarrow> jsnum \<Rightarrow> jsnum" where
  "js_quot NaN y = NaN"
| "js_quot x NaN = NaN"
| "js_quot (Fin a) (Fin b) =
     (if b = 0 then (if a = 0 then NaN else if 0 < a then PosInf else NegInf) else Fin (a / b))"
| "js_quot (Fin a) y = Fin 0"
| "js_quot PosInf (Fin b) = (if 0 \<le> b then PosInf else NegInf)"
| "js_quot NegInf (Fin b) = (if 0 \<le> b then NegInf else PosInf)"
| "js_quot x y = NaN"

fun js_mul :: "jsnum \<Rightarrow> jsnum \<Rightarrow> jsnum" where
  "js_mul NaN y = NaN"
| "js_mul x NaN = NaN"
| "js_mul (Fin a) (Fin b) = Fin (a * b)"
| "js_mul (Fin a) PosInf = (if a = 0 then NaN else if 0 < a then PosInf else NegInf)"
| "js_mul (Fin a) NegInf = (if a = 0 then NaN else if 0 < a then NegInf else PosInf)"
| "js_mul PosInf (Fin b) = (if b = 0 then NaN else if 0 < b then PosInf else NegInf)"
| "js_mul NegInf (Fin b) = (if b = 0 then NaN else if 0 < b then NegInf else PosInf)"
| "js_mul PosInf PosInf = PosInf"
| "js_mul NegInf NegInf = PosInf"
| "js_mul x y = NegInf"

fun js_add :: "jsnum \<Rightarrow> jsnum \<Rightarrow> jsnum" where
  "js_add NaN y = NaN"
| "js_add x NaN = NaN"
| "js_add (Fin a) (Fin b) = Fin (a + b)"
| "js_add (Fin a) y = y"
| "js_add x (Fin b) = x"
| "js_add PosInf PosInf = PosInf"
| "js_add NegInf NegInf = NegInf"
| "js_add x y = NaN"

text \<open>The comparison \<open>x < y\<close> of two numbers; \<open>None\<close> is the undefined result on a \<open>NaN\<close>.\<close>

fun num_lt :: "jsnum \<Rightarrow> jsnum \<Rightarrow> bool option" where
  "num_lt NaN y = None"
| "num_lt x NaN = None"
| "num_lt (Fin a) (Fin b) = Some (a < b)"
| "num_lt x PosInf = Some (x \<noteq> PosInf)"
| "num_lt NegInf y = Some (y \<noteq> NegInf)"
| "num_lt x y = Some False"

text \<open>\<open>Math.min\<close> of two numbers and \<open>Math.round\<close> (halves go up).\<close>

definition js_min :: "jsnum \<Rightarrow> jsnum \<Rightarrow> jsnum" where
  "js_min x y = (if x = NaN \<or> y = NaN then NaN else if num_lt y x = Some True then y else x)"

fun js_round :: "jsnum \<Rightarrow> jsnum" where
  "js_round (Fin q) = Fin (of_int \<lfloor>q + 1 / 2\<rfloor>)"
| "js_round x = x"

definition js_div :: "int \<Rightarrow> int \<Rightarrow> jsnum" where
  "js_div a b = js_quot (Fin (of_int a)) (Fin (of_int b))"

definition js_times :: "jsnum \<Rightarrow> rat \<Rightarrow> jsnum" where
  "js_times x c = js_mul x (Fin c)"

text \<open>Exceptions of the host language that the modelled code can raise.\<close>

datatype js_error = TypeError | SyntaxError

text \<open>
  A call that mutates an object either returns or throws; in both cases the mutations made
  so far stay in the object, so both outcomes carry the state.
\<close>

datatype 'a outcome = Returns 'a | Throws js_error 'a

fun state_of :: "'a outcome \<Rightarrow> 'a" where
  "state_of (Returns s) = s"
| "state_of (Throws e s) = s"

fun returns :: "'a outcome \<Rightarrow> bool" where
  "returns (Returns s) = True"
| "returns (Throws e s) = False"

text \<open>\<open>String.prototype.includes\<close>: the argument occurs as a contiguous substring.\<close>

fun str_includes :: "string \<Rightarrow> string \<Rightarrow> bool" where
  "str_includes [] t = (t = [])"
| "str_includes (c # s) t = (prefix t (c # s) \<or> str_includes s t)"

text \<open>\<open>toLowerCase\<close> on the ASCII letters (the strings of the model are byte strings).\<close>

definition lower_char :: "char \<Rightarrow> char" where
  "lower_char c =
     (if 65 \<le> (of_char c :: nat) \<and> (of_char c :: nat) \<le> 90
      then char_of ((of_char c :: nat) + 32) else c)"

definition toLowerCase :: "string \<Rightarrow> string" where
  "toLowerCase s = map lower_char s"

text \<open>Truthiness of an optional string: \<open>undefined\<close> and the empty string are falsy.\<close>

fun truthy :: "string option \<Rightarrow> bool" where
  "truthy None = False"
| "truthy (Some s) = (s \<noteq> [])"

subsection \<open>Dynamic values\<close>

text \<open>
  The operand of a persona rule is whatever the caller wrote, and a metric is a number, a
  string or a boolean. The conversions between strings and numbers belong to the host and
  are parameters of the model.
\<close>

datatype jsval = VNum jsnum | VStr string | VBool bool | VList "jsval list" | VUndefined

record coercions =
  str_num :: "string \<Rightarrow> jsnum"
  num_str :: "jsnum \<Rightarrow> string"

fun join_comma :: "string list \<Rightarrow> string" where
  "join_comma [] = []"
| "join_comma [s] = s"
| "join_comma (s # ss) = s @ '','' @ join_comma ss"

fun to_str :: "coercions \<Rightarrow> jsval \<Rightarrow> string" where
  "to_str h (VNum x) = num_str h x"
| "to_str h (VStr s) = s"
| "to_str h (VBool b) = (if b then ''true'' else ''false'')"
| "to_str h VUndefined = ''undefined''"
| "to_str h (VList vs) = join_comma (map (\<lambda>v. if v = VUndefined then [] else to_str h v) vs)"

definition to_prim :: "coercions \<Rightarrow> jsval \<Rightarrow> jsval" where
  "to_prim h v = (case v of VList vs \<Rightarrow> VStr (to_str h v) | _ \<Rightarrow> v)"

fun to_num :: "coercions \<Rightarrow> jsval \<Rightarrow> jsnum" where
  "to_num h (VNum x) = x"
| "to_num h (VStr s) = str_num h s"
| "to_num h (VBool b) = Fin (if b then 1 else 0)"
| "to_num h VUndefined = NaN"
| "to_num h (VList vs) = str_num h (to_str h (VList vs))"

text \<open>
  The relational comparison of the language: two strings compare by their code units,
  anything else as numbers.
\<close>

definition str_lt :: "string \<Rightarrow> string \<Rightarrow> bool" where
  "str_lt s t = lexordp (\<lambda>a b. (of_char a :: nat) < of_char b) s t"

definition is_less_than :: "coercions \<Rightarrow> jsval \<Rightarrow> jsval \<Rightarrow> bool option" where
  "is_less_than h x y =
     (case (to_prim h x, to_prim h y) of
        (VStr s, VStr t) \<Rightarrow> Some (str_lt s t)
      | (px, py) \<Rightarrow> num_lt (to_num h px) (to_num h py))"

definition js_gt :: "coercions \<Rightarrow> jsval \<Rightarrow> jsval \<Rightarrow> bool" where
  "js_gt h x y = (is_less_than h y x = Some True)"

definition js_lt :: "coercions \<Rightarrow> jsval \<Rightarrow> jsval \<Rightarrow> bool" where
  "js_lt h x y = (is_less_than h x y = Some True)"

definition js_ge :: "coercions \<Rightarrow> jsval \<Rightarrow> jsval \<Rightarrow> bool" where
  "js_ge h x y = (is_less_than h x y = Some False)"

definition js_le :: "coercions \<Rightarrow> jsval \<Rightarrow> jsval \<Rightarrow> bool" where
  "js_le h x y = (is_less_than h y x = Some False)"

text \<open>
  Strict equality. An array is equal only to itself; the left operand below is always a
  metric, so an array operand is equal to nothing.
\<close>

fun strict_eq :: "jsval \<Rightarrow> jsval \<Rightarrow> bool" where
  "strict_eq (VNum x) (VNum y) = (x = y \<and> x \<noteq> NaN)"
| "strict_eq (VStr s) (VStr t) = (s = t)"
| "strict_eq (VBool a) (VBool b) = (a = b)"
| "strict_eq VUndefined VUndefined = True"
| "strict_eq x y = False"

text \<open>\<open>v[i]\<close>: reading a property of \<open>undefined\<close> raises.\<close>

fun prop_index :: "jsval \<Rightarrow> nat \<Rightarrow> js_error + jsval" where
  "prop_index (VList vs) i = Inr (if i < length vs then vs ! i else VUndefined)"
| "prop_index (VStr s) i = Inr (if i < length s then VStr [s ! i] else VUndefined)"
| "prop_index VUndefined i = Inl TypeError"
| "prop_index v i = Inr VUndefined"

text \<open>
  \<open>v.includes(x)\<close>: arrays and strings have the method (an array compares as strict
  equality does, but finds \<open>NaN\<close>); on any other value the call raises.
\<close>

fun includes_val :: "coercions \<Rightarrow> jsval \<Rightarrow> jsval \<Rightarrow> js_error + bool" where
  "includes_val h (VList vs) x = Inr (list_ex (\<lambda>v. strict_eq v x \<or> (v = VNum NaN \<and> x = VNum NaN)) vs)"
| "includes_val h (VStr s) x = Inr (str_includes s (to_str h x))"
| "includes_val h v x = Inl TypeError"

text \<open>
  Truthiness of a value (zero, \<open>NaN\<close>, the empty string, \<open>false\<close> and \<open>undefined\<close>
  are falsy), and \<open>v.includes(t)\<close> for a string \<open>t\<close>, which converts nothing.
\<close>

fun truthy_val :: "jsval \<Rightarrow> bool" where
  "truthy_val (VNum x) = (x \<noteq> Fin 0 \<and> x \<noteq> NaN)"
| "truthy_val (VStr s) = (s \<noteq> [])"
| "truthy_val (VBool b) = b"
| "truthy_val (VList vs) = True"
| "truthy_val VUndefined = False"

definition includes_str :: "jsval \<Rightarrow> string \<Rightarrow> js_error + bool" where
  "includes_str v t =
     (case v of
        VList vs \<Rightarrow> Inr (list_ex (\<lambda>x. strict_eq x (VStr t)) vs)
      | VStr s \<Rightarrow> Inr (str_includes s t)
      | _ \<Rightarrow> Inl TypeError)"

text \<open>
  A concrete pair of conversions for the closed examples: decimal numerals of natural
  numbers, as the host reads and prints them; the examples convert nothing else.
\<close>

text \<open>The decimal numeral of a natural number.\<close>

function digits :: "nat \<Rightarrow> string" where
  "digits n = (if n < 10 then [char_of (48 + n)] else digits (n div 10) @ [char_of (48 + n mod 10)])"
  by pat_completeness auto
termination
  by (relation "measure id") auto

fun parse_digits :: "nat \<Rightarrow> string \<Rightarrow> nat" where
  "parse_digits acc [] = acc"
| "parse_digits acc (c # s) = parse_digits (10 * acc + (of_char c - 48)) s"

definition is_digit :: "char \<Rightarrow> bool" where
  "is_digit c = (48 \<le> (of_char c :: nat) \<and> (of_char c :: nat) \<le> 57)"

definition example_coercions :: coercions where
  "example_coercions =
     \<lparr>str_num = (\<lambda>s. if s \<noteq> [] \<and> list_all is_digit s then Fin (of_nat (parse_digits 0 s)) else NaN),
      num_str = (\<lambda>x. case x of
                       Fin q \<Rightarrow> if 0 \<le> q \<and> of_int \<lfloor>q\<rfloor> = q then digits (nat \<lfloor>q\<rfloor>) else ''NaN''
                     | _ \<Rightarrow> ''NaN'')\<rparr>"

text \<open>
  The regular-expression engine of the host is not part of the repository. It is a
  parameter of the model: \<open>rx p\<close> is \<open>None\<close> when \<open>new RegExp(p)\<close> raises a
  \<open>SyntaxError\<close>, and \<open>Some m\<close> when it yields an expression whose \<open>test\<close> is \<open>m\<close>.
\<close>

type_synonym regexp_engine = "string \<Rightarrow> (string \<Rightarrow> bool) option"

text \<open>
  Closed examples need one concrete engine. \<open>example_engine\<close> implements the patterns made
  of ordinary characters, \<open>.\<close> and \<open>.*\<close>, on which it searches the string as the host does,
  and rejects every other pattern, as the host rejects \<open>(.*\<close> with its unclosed group.
  The examples below call it on no pattern of another shape.
\<close>

fun wild_match :: "string \<Rightarrow> string \<Rightarrow> bool" where
  "wild_match [] s = True"
| "wild_match (c # p) s =
     (if c = CHR ''.'' \<and> p \<noteq> [] \<and> hd p = CHR ''*''
      then list_ex (wild_match (tl p)) (suffixes s)
      else (case s of [] \<Rightarrow> False | d # s' \<Rightarrow> (c = CHR ''.'' \<or> c = d) \<and> wild_match p s'))"

fun in_fragment :: "string \<Rightarrow> bool" where
  "in_fragment [] = True"
| "in_fragment (c # p) =
     (if c = CHR ''.'' \<and> p \<noteq> [] \<and> hd p = CHR ''*'' then in_fragment (tl p)
      else c \<notin> set (CHR 0x5C # ''^$*+?()[]{}|'') \<and> in_fragment p)"

definition example_engine :: regexp_engine where
  "example_engine p =
     (if in_fragment p then Some (\<lambda>s. list_ex (wild_match p) (suffixes s)) else None)"


section \<open>FunnelAnalyzer (js/modules/funnels/funnel.js)\<close>

subsection \<open>Data\<close>

text \<open>A step as the caller of \<open>defineFunnel\<close> passes it.\<close>

record step_config =
  sc_id :: "string option"
  sc_name :: "string option"
  sc_url :: "string option"
  sc_event :: "string option"
  sc_selector :: "string option"

record step =
  step_id :: string
  step_name :: "string option"
  step_url :: "string option"
  step_event :: "string option"
  step_selector :: "string option"
  step_order :: nat

record define_options =
  opt_name :: "string option"
  opt_timeWindow :: "int option"
  opt_allowBacktrack :: "bool option"

record funnel_options =
  timeWindow :: int
  allowBacktrack :: bool

record funnel =
  f_id :: string
  f_name :: string
  f_steps :: "step list"
  f_options :: funnel_options

text \<open>The element descriptor of \<open>getElementInfo\<close>.\<close>

record element_info =
  tagName :: string
  el_id :: string
  className :: string
  textContent :: "string option"

text \<open>
  An event as the analyzer reads it: the fields that \<open>eventMatchesStep\<close>,
  \<open>checkFunnelStep\<close> and \<open>processStepCompletion\<close> look at.
\<close>

record fevent =
  ev_type :: string
  ev_url :: "string option"
  ev_name :: "string option"
  ev_element :: "element_info option"
  ev_timestamp :: int
  ev_sessionId :: string
  ev_userId :: string

record completed_step =
  cs_stepIndex :: nat
  cs_timestamp :: int
  cs_event :: fevent

record session =
  se_sessionId :: string
  se_userId :: string
  se_startTime :: int
  currentStep :: int
  completedSteps :: "completed_step list"
  se_events :: "fevent list"
  status :: string

record step_stats =
  stepIndex :: nat
  reached :: nat
  dropped :: nat
  conversionFromPrevious :: jsnum
  averageTimeToNext :: nat
  commonDropoffReasons :: "string list"

record funnel_stats =
  totalSessions :: nat
  completedSessions :: nat
  conversionRate :: jsnum
  st_steps :: "step_stats list"

text \<open>
  A \<open>Map\<close> keeps its keys in insertion order and \<open>set\<close> on a present key replaces the
  value in place: an association list with \<open>map_of\<close> and \<open>AList.update\<close>.
\<close>

record funnel_data =
  fd_funnel :: funnel
  fd_sessions :: "(string \<times> session) list"
  fd_stats :: funnel_stats

record analyzer =
  cfg_funnels :: "funnel list"
  funnelData :: "(string \<times> funnel_data) list"
  an_events :: "fevent list"

subsection \<open>Defining a funnel\<close>

definition initializeFunnelStats :: "nat \<Rightarrow> funnel_stats" where
  "initializeFunnelStats stepCount =
     \<lparr>totalSessions = 0, completedSessions = 0, conversionRate = Fin 0,
      st_steps = map (\<lambda>i. \<lparr>stepIndex = i, reached = 0, dropped = 0,
                            conversionFromPrevious = Fin 0, averageTimeToNext = 0,
                            commonDropoffReasons = []\<rparr>) [0..<stepCount]\<rparr>"

definition make_step :: "step_config \<Rightarrow> nat \<Rightarrow> step" where
  "make_step sc index =
     \<lparr>step_id = (if truthy (sc_id sc) then the (sc_id sc) else ''step_'' @ digits index),
      step_name = sc_name sc, step_url = sc_url sc, step_event = sc_event sc,
      step_selector = sc_selector sc, step_order = index\<rparr>"

text \<open>
  The options object ends with the spread of the caller's options, so a key the caller
  gave wins over the default computed before it.
\<close>

definition defineFunnel :: "string \<Rightarrow> step_config list \<Rightarrow> define_options \<Rightarrow> analyzer \<Rightarrow> funnel \<times> analyzer" where
  "defineFunnel funnelId steps options a =
     (let fn = \<lparr>f_id = funnelId,
                f_name = (if truthy (opt_name options) then the (opt_name options) else funnelId),
                f_steps = map (\<lambda>(sc, index). make_step sc index) (zip steps [0..<length steps]),
                f_options = \<lparr>timeWindow = (case opt_timeWindow options of None \<Rightarrow> 3600000 | Some w \<Rightarrow> w),
                             allowBacktrack = (case opt_allowBacktrack options of None \<Rightarrow> False | Some b \<Rightarrow> b)\<rparr>\<rparr>
      in (fn, a\<lparr>cfg_funnels := cfg_funnels a @ [fn],
                funnelData := AList.update funnelId
                   \<lparr>fd_funnel = fn, fd_sessions = [], fd_stats = initializeFunnelStats (length (f_steps fn))\<rparr>
                   (funnelData a)\<rparr>))"

subsection \<open>Matching an event against a step\<close>

text \<open>The global replacement of the star: every \<open>*\<close> of the pattern becomes \<open>.*\<close>.\<close>

definition replace_stars :: "string \<Rightarrow> string" where
  "replace_stars stepUrl = concat (map (\<lambda>c. if c = CHR ''*'' then ''.*'' else [c]) stepUrl)"

text \<open>
  \<open>urlMatches\<close> has no \<open>try\<close>: what the constructor of the expression raises leaves
  the function.
\<close>

definition urlMatches :: "regexp_engine \<Rightarrow> string \<Rightarrow> string \<Rightarrow> js_error + bool" where
  "urlMatches rx eventUrl stepUrl =
     (if CHR ''*'' \<in> set stepUrl
      then (case rx (replace_stars stepUrl) of
              None \<Rightarrow> Inl SyntaxError
            | Some m \<Rightarrow> Inr (m eventUrl))
      else Inr (str_includes eventUrl stepUrl))"

text \<open>
  The body runs inside \<open>try\<close>; reading a property of an absent element raises and the
  \<open>catch\<close> returns false.
\<close>

definition elementMatchesSelector :: "element_info option \<Rightarrow> string \<Rightarrow> bool" where
  "elementMatchesSelector element selector =
     (case element of
        None \<Rightarrow> False
      | Some el \<Rightarrow>
          el_id el = remove1 CHR ''#'' selector
          \<or> str_includes (className el) (remove1 CHR ''.'' selector)
          \<or> toLowerCase (tagName el) = toLowerCase selector)"

definition eventMatchesStep :: "regexp_engine \<Rightarrow> fevent \<Rightarrow> step \<Rightarrow> js_error + bool" where
  "eventMatchesStep rx event st =
     (if truthy (step_url st) \<and> ev_type event = ''pageview'' \<and> truthy (ev_url event)
      then urlMatches rx (the (ev_url event)) (the (step_url st))
      else if truthy (step_event st)
              \<and> ((ev_type event = ''custom'' \<and> ev_name event = step_event st)
                   \<or> ev_type event = the (step_event st))
      then Inr True
      else if truthy (step_selector st) \<and> ev_type event = ''click''
      then Inr (elementMatchesSelector (ev_element event) (the (step_selector st)))
      else Inr False)"

subsection \<open>Advancing a session\<close>

text \<open>
  \<open>updateFunnelStats\<close> reads the entry of the funnel; its \<open>funnel\<close> field gives the
  number of steps. Indexing \<open>stats.steps\<close> out of range yields \<open>undefined\<close>, and the
  increment of its \<open>reached\<close> raises before anything is written.
\<close>

definition updateFunnelStats :: "funnel \<Rightarrow> nat \<Rightarrow> funnel_stats \<Rightarrow> js_error + funnel_stats" where
  "updateFunnelStats dfunnel k stats =
     (if length (st_steps stats) \<le> k then Inl TypeError
      else
        let ss1 = (st_steps stats)[k := (st_steps stats ! k)\<lparr>reached := reached (st_steps stats ! k) + 1\<rparr>];
            ss2 = (if 0 < k
                   then ss1[k := (ss1 ! k)\<lparr>conversionFromPrevious :=
                          js_times (js_div (int (reached (ss1 ! k))) (int (reached (ss1 ! (k - 1))))) 100\<rparr>]
                   else ss1);
            stats1 = stats\<lparr>st_steps := ss2\<rparr>;
            stats2 = (if k = 0 then stats1\<lparr>totalSessions := totalSessions stats1 + 1\<rparr> else stats1);
            stats3 = (if int k = int (length (f_steps dfunnel)) - 1
                      then stats2\<lparr>completedSessions := completedSessions stats2 + 1,
                                  conversionRate :=
                                    js_times (js_div (int (completedSessions stats2 + 1))
                                                     (int (totalSessions stats2))) 100\<rparr>
                      else stats2)
        in Inr stats3)"

text \<open>
  \<open>processStepCompletion\<close> works on the session object and, through
  \<open>updateFunnelStats\<close>, on the statistics of the funnel's entry. \<open>onFunnelComplete\<close>
  and \<open>onStepBacktrack\<close> write to the console and dispatch a DOM event; they leave the
  analyzer as it is.
\<close>

definition processStepCompletion ::
  "funnel \<Rightarrow> funnel \<Rightarrow> nat \<Rightarrow> fevent \<Rightarrow> session \<times> funnel_stats \<Rightarrow> (session \<times> funnel_stats) outcome" where
  "processStepCompletion fn dfunnel k event ss =
     (let sess = fst ss; stats = snd ss; expectedStep = currentStep sess + 1 in
      if int k = expectedStep then
        let sess1 = sess\<lparr>currentStep := int k,
                        completedSteps := completedSteps sess @
                          [\<lparr>cs_stepIndex = k, cs_timestamp = ev_timestamp event, cs_event = event\<rparr>]\<rparr>
        in (case updateFunnelStats dfunnel k stats of
              Inl e \<Rightarrow> Throws e (sess1, stats)
            | Inr stats1 \<Rightarrow>
                if int k = int (length (f_steps fn)) - 1
                then Returns (sess1\<lparr>status := ''completed''\<rparr>, stats1)
                else Returns (sess1, stats1))
      else if allowBacktrack (f_options fn) \<and> int k < expectedStep then
        Returns (sess\<lparr>currentStep := int k\<rparr>, stats)
      else Returns (sess, stats))"

text \<open>The \<open>forEach\<close> over the steps of the funnel, from index \<open>k\<close> on.\<close>

fun check_steps ::
  "regexp_engine \<Rightarrow> funnel \<Rightarrow> funnel \<Rightarrow> fevent \<Rightarrow> nat \<Rightarrow> step list \<Rightarrow> session \<times> funnel_stats
     \<Rightarrow> (session \<times> funnel_stats) outcome" where
  "check_steps rx fn dfunnel event k [] ss = Returns ss"
| "check_steps rx fn dfunnel event k (st # sts) ss =
     (case eventMatchesStep rx event st of
        Inl e \<Rightarrow> Throws e ss
      | Inr False \<Rightarrow> check_steps rx fn dfunnel event (Suc k) sts ss
      | Inr True \<Rightarrow>
          (case processStepCompletion fn dfunnel k event ss of
             Throws e ss' \<Rightarrow> Throws e ss'
           | Returns ss' \<Rightarrow> check_steps rx fn dfunnel event (Suc k) sts ss'))"

definition new_session :: "fevent \<Rightarrow> session" where
  "new_session event =
     \<lparr>se_sessionId = ev_sessionId event, se_userId = ev_userId event,
      se_startTime = ev_timestamp event, currentStep = - 1, completedSteps = [],
      se_events = [], status = ''active''\<rparr>"

definition store_session :: "funnel_data \<Rightarrow> string \<Rightarrow> session \<times> funnel_stats \<Rightarrow> funnel_data" where
  "store_session fd sid ss =
     fd\<lparr>fd_sessions := AList.update sid (fst ss) (fd_sessions fd), fd_stats := snd ss\<rparr>"

text \<open>The session of the event in the funnel's entry, created on first use.\<close>

definition session_of :: "funnel_data \<Rightarrow> fevent \<Rightarrow> session" where
  "session_of fd event =
     (case map_of (fd_sessions fd) (ev_sessionId event) of
        None \<Rightarrow> new_session event
      | Some s \<Rightarrow> s)"

definition checkFunnelStep :: "regexp_engine \<Rightarrow> funnel \<Rightarrow> fevent \<Rightarrow> analyzer \<Rightarrow> analyzer outcome" where
  "checkFunnelStep rx fn event a =
     (case map_of (funnelData a) (f_id fn) of
        None \<Rightarrow> Throws TypeError a
      | Some fd \<Rightarrow>
          let sid = ev_sessionId event;
              sess0 = session_of fd event;
              sess1 = sess0\<lparr>se_events := se_events sess0 @ [event]\<rparr>;
              put = (\<lambda>ss. a\<lparr>funnelData := AList.update (f_id fn) (store_session fd sid ss) (funnelData a)\<rparr>)
          in (case check_steps rx fn (fd_funnel fd) event 0 (f_steps fn) (sess1, fd_stats fd) of
                Returns ss \<Rightarrow> Returns (put ss)
              | Throws e ss \<Rightarrow> Throws e (put ss)))"

text \<open>\<open>analyzeEvent\<close>: the \<open>forEach\<close> over the configured funnels.\<close>

fun analyze_funnels :: "regexp_engine \<Rightarrow> funnel list \<Rightarrow> fevent \<Rightarrow> analyzer \<Rightarrow> analyzer outcome" where
  "analyze_funnels rx [] event a = Returns a"
| "analyze_funnels rx (fn # fns) event a =
     (case checkFunnelStep rx fn event a of
        Throws e a' \<Rightarrow> Throws e a'
      | Returns a' \<Rightarrow> analyze_funnels rx fns event a')"

definition analyzeEvent :: "regexp_engine \<Rightarrow> fevent \<Rightarrow> analyzer \<Rightarrow> analyzer outcome" where
  "analyzeEvent rx event a = analyze_funnels rx (cfg_funnels a) event a"

text \<open>
  \<open>addEvent\<close> stamps the event with the session and user ids it reads from local storage
  (here \<open>sid\<close> and \<open>uid\<close>), records it and analyses it.
\<close>

definition addEvent :: "regexp_engine \<Rightarrow> string \<Rightarrow> string \<Rightarrow> fevent \<Rightarrow> analyzer \<Rightarrow> analyzer outcome" where
  "addEvent rx sid uid event0 a =
     (let event = event0\<lparr>ev_sessionId := sid, ev_userId := uid\<rparr>
      in analyzeEvent rx event (a\<lparr>an_events := an_events a @ [event]\<rparr>))"

definition new_analyzer :: analyzer where
  "new_analyzer = \<lparr>cfg_funnels = [], funnelData = [], an_events = []\<rparr>"

text \<open>
  A sequence of calls on one analyzer. An exception of \<open>addEvent\<close> surfaces in the
  listener that called it; the analyzer keeps the state it had at the throw and the later
  calls act on that state.
\<close>

datatype call = DefineFunnel string "step_config list" define_options | AddEvent string string fevent

fun run_calls :: "regexp_engine \<Rightarrow> call list \<Rightarrow> analyzer \<Rightarrow> analyzer" where
  "run_calls rx [] a = a"
| "run_calls rx (DefineFunnel funnelId steps options # cs) a =
     run_calls rx cs (snd (defineFunnel funnelId steps options a))"
| "run_calls rx (AddEvent sid uid event # cs) a =
     run_calls rx cs (state_of (addEvent rx sid uid event a))"

fun defined_ids :: "call list \<Rightarrow> string list" where
  "defined_ids [] = []"
| "defined_ids (DefineFunnel funnelId steps options # cs) = funnelId # defined_ids cs"
| "defined_ids (AddEvent sid uid event # cs) = defined_ids cs"

subsection \<open>Example funnels and events\<close>

definition step_cfg :: "string option \<Rightarrow> string option \<Rightarrow> string option \<Rightarrow> step_config" where
  "step_cfg u e s = \<lparr>sc_id = None, sc_name = None, sc_url = u, sc_event = e, sc_selector = s\<rparr>"

definition default_options :: define_options where
  "default_options = \<lparr>opt_name = None, opt_timeWindow = None, opt_allowBacktrack = None\<rparr>"

definition backtrack_options :: define_options where
  "backtrack_options = \<lparr>opt_name = None, opt_timeWindow = None, opt_allowBacktrack = Some True\<rparr>"

definition custom_event :: "string \<Rightarrow> int \<Rightarrow> fevent" where
  "custom_event n t =
     \<lparr>ev_type = ''custom'', ev_url = Some ''/shop'', ev_name = Some n, ev_element = None,
      ev_timestamp = t, ev_sessionId = [], ev_userId = []\<rparr>"

text \<open>A checkout funnel: any click, then the cart page, then a click on the buy button.\<close>

definition checkout_steps :: "step_config list" where
  "checkout_steps =
     [step_cfg None (Some ''click'') None, step_cfg (Some ''/cart'') None None,
      step_cfg None None (Some ''#buy'')]"

definition checkout_analyzer :: analyzer where
  "checkout_analyzer = snd (defineFunnel ''checkout'' checkout_steps default_options new_analyzer)"

definition buy_click :: fevent where
  "buy_click =
     \<lparr>ev_type = ''click'', ev_url = Some ''/shop'', ev_name = None,
      ev_element = Some \<lparr>tagName = ''button'', el_id = ''buy'', className = ''btn'', textContent = None\<rparr>,
      ev_timestamp = 1000, ev_sessionId = ''s1'', ev_userId = ''u1''\<rparr>"

text \<open>A signup funnel of three custom events, without and with backtracking.\<close>

definition signup_steps :: "step_config list" where
  "signup_steps =
     [step_cfg None (Some ''visit'') None, step_cfg None (Some ''form'') None,
      step_cfg None (Some ''done'') None]"

definition signup_analyzer :: analyzer where
  "signup_analyzer = snd (defineFunnel ''signup'' signup_steps default_options new_analyzer)"

definition signup_funnel :: funnel where
  "signup_funnel = fst (defineFunnel ''signup'' signup_steps default_options new_analyzer)"

definition signup_calls :: "call list" where
  "signup_calls =
     [DefineFunnel ''signup'' signup_steps default_options,
      AddEvent ''s1'' ''u1'' (custom_event ''visit'' 1000),
      AddEvent ''s2'' ''u2'' (custom_event ''visit'' 2000),
      AddEvent ''s1'' ''u1'' (custom_event ''form'' 3000)]"

definition backtrack_calls :: "call list" where
  "backtrack_calls =
     [DefineFunnel ''signup'' signup_steps backtrack_options,
      AddEvent ''s1'' ''u1'' (custom_event ''visit'' 1000),
      AddEvent ''s1'' ''u1'' (custom_event ''form'' 2000),
      AddEvent ''s1'' ''u1'' (custom_event ''visit'' 3000),
      AddEvent ''s1'' ''u1'' (custom_event ''form'' 4000)]"

definition signup_entry :: funnel_data where
  "signup_entry = the (map_of (funnelData signup_analyzer) ''signup'')"

definition done_event :: fevent where
  "done_event = (custom_event ''done'' 5000)\<lparr>ev_sessionId := ''s1'', ev_userId := ''u1''\<rparr>"

definition visit_event :: fevent where
  "visit_event = (custom_event ''visit'' 1000)\<lparr>ev_sessionId := ''s1'', ev_userId := ''u1''\<rparr>"

definition signup_result :: funnel_data where
  "signup_result = the (map_of (funnelData (run_calls example_engine signup_calls new_analyzer)) ''signup'')"

definition backtrack_result :: funnel_data where
  "backtrack_result = the (map_of (funnelData (run_calls example_engine backtrack_calls new_analyzer)) ''signup'')"

text \<open>A funnel whose only step has a URL pattern with an unclosed group.\<close>

definition docs_analyzer :: analyzer where
  "docs_analyzer = snd (defineFunnel ''docs'' [step_cfg (Some ''/docs/(*'') None None] default_options new_analyzer)"

definition docs_funnel :: funnel where
  "docs_funnel = fst (defineFunnel ''docs'' [step_cfg (Some ''/docs/(*'') None None] default_options new_analyzer)"

definition docs_view :: fevent where
  "docs_view =
     \<lparr>ev_type = ''pageview'', ev_url = Some ''/docs/1'', ev_name = None, ev_element = None,
      ev_timestamp = 1000, ev_sessionId = ''s1'', ev_userId = ''u1''\<rparr>"

section \<open>PersonaAnalyzer (js/modules/personas/personas.js)\<close>

subsection \<open>Data\<close>

record rule =
  metric :: string
  operator :: string
  rl_value :: jsval
  timeframe :: "string option"

text \<open>
  The configuration object of \<open>definePersona\<close>. A key that is absent is \<open>None\<close>; the
  record has no \<open>id\<close>, so the spread at the end of the persona literal leaves the id alone.
\<close>

record persona_config =
  pc_name :: "string option"
  pc_description :: "string option"
  pc_rules :: "rule list option"
  pc_color :: "string option"

record persona =
  p_id :: string
  p_name :: "string option"
  p_description :: "string option"
  p_rules :: "rule list"
  p_color :: string
  p_created :: int

text \<open>
  The device of an event is read for its \<open>userAgent\<close> alone; \<open>None\<close> is a device object
  without that key.
\<close>

record device_info =
  userAgent :: "string option"

record page_info =
  pg_url :: "string option"
  pg_referrer :: "string option"

text \<open>
  An event as \<open>addUserEvent\<close> reads it. The \<open>name\<close> is whatever the caller wrote
  (\<open>VUndefined\<close> when the key is absent); \<open>pe_device\<close> is \<open>None\<close> when \<open>event.device\<close> is
  falsy.
\<close>

record pevent =
  pe_type :: string
  pe_timestamp :: int
  pe_name :: jsval
  pe_url :: "string option"
  pe_page :: "page_info option"
  pe_device :: "device_info option"

record psession =
  ps_id :: string
  startTime :: int
  lastActivity :: int
  duration :: int
  pageViews :: nat
  clicks :: nat
  conversions :: nat
  formSubmissions :: nat
  ps_events :: "pevent list"
  entryPage :: "string option"
  ps_device :: "device_info option"
  ps_referrer :: "string option"

record user_metrics =
  m_totalSessions :: nat
  totalPageViews :: nat
  totalDuration :: int
  totalClicks :: nat
  conversionEvents :: nat
  deviceTypes :: "(string \<times> nat) list"
  browsers :: "(string \<times> nat) list"
  referrers :: "(string \<times> nat) list"
  pages :: "(string \<times> nat) list"

record assignment =
  as_id :: string
  assignedAt :: int
  confidence :: jsnum

record user_profile =
  u_id :: string
  firstSeen :: int
  lastSeen :: int
  sessions :: "psession list"
  currentSession :: "psession option"
  personas :: "assignment list"
  metrics :: user_metrics

record segment_metrics =
  sm_totalUsers :: nat
  sm_activeUsers :: nat
  avgSessionDuration :: jsnum
  avgPageViews :: jsnum
  sm_conversionRate :: jsnum
  retentionRate :: jsnum

text \<open>
  The \<open>users\<close> of a segment are a \<open>Set\<close>: a list without repetition, in insertion order.
\<close>

record segment =
  seg_persona :: persona
  seg_users :: "string list"
  seg_metrics :: segment_metrics

record persona_analyzer =
  cfg_personas :: "persona list"
  users :: "(string \<times> user_profile) list"
  segments :: "(string \<times> segment) list"

text \<open>
  What one call reads from its environment: the clock (\<open>Date.now()\<close>) and the identifier
  generated for a session that the call may open.
\<close>

record env =
  now :: int
  new_session_id :: string

subsection \<open>Defining personas\<close>

definition initializePersonaMetrics :: segment_metrics where
  "initializePersonaMetrics =
     \<lparr>sm_totalUsers = 0, sm_activeUsers = 0, avgSessionDuration = Fin 0, avgPageViews = Fin 0,
      sm_conversionRate = Fin 0, retentionRate = Fin 0\<rparr>"

definition definePersona :: "int \<Rightarrow> string \<Rightarrow> persona_config \<Rightarrow> persona_analyzer \<Rightarrow> persona \<times> persona_analyzer" where
  "definePersona t pid config pa =
     (let p = \<lparr>p_id = pid, p_name = pc_name config, p_description = pc_description config,
                p_rules = (case pc_rules config of None \<Rightarrow> [] | Some rs \<Rightarrow> rs),
                p_color = (case pc_color config of None \<Rightarrow> ''#757575''
                           | Some c \<Rightarrow> c),
                p_created = t\<rparr>
      in (p, pa\<lparr>cfg_personas := cfg_personas pa @ [p],
                segments := AList.update pid
                   \<lparr>seg_persona = p, seg_users = [], seg_metrics = initializePersonaMetrics\<rparr>
                   (segments pa)\<rparr>))"

definition mk_rule :: "string \<Rightarrow> string \<Rightarrow> jsval \<Rightarrow> string \<Rightarrow> rule" where
  "mk_rule m oper v tf = \<lparr>metric = m, operator = oper, rl_value = v, timeframe = Some tf\<rparr>"

definition num :: "rat \<Rightarrow> jsval" where
  "num q = VNum (Fin q)"

definition power_user_config :: persona_config where
  "power_user_config =
     \<lparr>pc_name = Some ''Power User'',
      pc_description = Some ''Highly engaged users with frequent interactions'',
      pc_rules = Some [mk_rule ''pageViews'' ''>'' (num 10) ''session'',
                       mk_rule ''sessionDuration'' ''>'' (num 300000) ''session'',
                       mk_rule ''clickCount'' ''>'' (num 50) ''session''],
      pc_color = Some ''#4CAF50''\<rparr>"

definition casual_user_config :: persona_config where
  "casual_user_config =
     \<lparr>pc_name = Some ''Casual User'',
      pc_description = Some ''Regular users with moderate engagement'',
      pc_rules = Some [mk_rule ''pageViews'' ''between'' (VList [num 3, num 10]) ''session'',
                       mk_rule ''sessionDuration'' ''between'' (VList [num 60000, num 300000]) ''session''],
      pc_color = Some ''#2196F3''\<rparr>"

definition bouncer_config :: persona_config where
  "bouncer_config =
     \<lparr>pc_name = Some ''Bouncer'',
      pc_description = Some ''Users who leave quickly with minimal interaction'',
      pc_rules = Some [mk_rule ''pageViews'' ''<='' (num 1) ''session'',
                       mk_rule ''sessionDuration'' ''<'' (num 30000) ''session''],
      pc_color = Some ''#F44336''\<rparr>"

definition mobile_user_config :: persona_config where
  "mobile_user_config =
     \<lparr>pc_name = Some ''Mobile User'',
      pc_description = Some ''Users primarily accessing via mobile devices'',
      pc_rules = Some [mk_rule ''deviceType'' ''='' (VStr ''mobile'') ''session'',
                       mk_rule ''mobileSessionRatio'' ''>'' (num (8 / 10)) ''week''],
      pc_color = Some ''#FF9800''\<rparr>"

definition converter_config :: persona_config where
  "converter_config =
     \<lparr>pc_name = Some ''Converter'',
      pc_description = Some ''Users who complete conversion actions'',
      pc_rules = Some [mk_rule ''conversionEvents'' ''>'' (num 0) ''session'',
                       mk_rule ''funnelCompletion'' ''='' (VBool True) ''session''],
      pc_color = Some ''#9C27B0''\<rparr>"

definition initializeDefaultPersonas :: "int \<Rightarrow> persona_analyzer \<Rightarrow> persona_analyzer" where
  "initializeDefaultPersonas t pa =
     snd (definePersona t ''converter'' converter_config
       (snd (definePersona t ''mobile_user'' mobile_user_config
         (snd (definePersona t ''bouncer'' bouncer_config
           (snd (definePersona t ''casual_user'' casual_user_config
             (snd (definePersona t ''power_user'' power_user_config pa)))))))))"

text \<open>The constructor, with the default configuration.\<close>

definition new_persona_analyzer :: "int \<Rightarrow> persona_analyzer" where
  "new_persona_analyzer t =
     initializeDefaultPersonas t \<lparr>cfg_personas = [], users = [], segments = []\<rparr>"

subsection \<open>The user profile\<close>

definition createUserProfile :: "int \<Rightarrow> string \<Rightarrow> user_profile" where
  "createUserProfile t userId =
     \<lparr>u_id = userId, firstSeen = t, lastSeen = t, sessions = [], currentSession = None,
      personas = [],
      metrics = \<lparr>m_totalSessions = 0, totalPageViews = 0, totalDuration = 0, totalClicks = 0,
                 conversionEvents = 0, deviceTypes = [], browsers = [], referrers = [],
                 pages = []\<rparr>\<rparr>"

definition isNewSession :: "psession \<Rightarrow> pevent \<Rightarrow> bool" where
  "isNewSession cur event = (pe_timestamp event - lastActivity cur > 1800000)"

text \<open>\<open>a || b\<close> on optional strings.\<close>

definition or_else :: "string option \<Rightarrow> string option \<Rightarrow> string option" where
  "or_else a b = (if truthy a then a else b)"

definition page_url :: "pevent \<Rightarrow> string option" where
  "page_url event = (case pe_page event of None \<Rightarrow> None | Some pg \<Rightarrow> pg_url pg)"

definition page_referrer :: "pevent \<Rightarrow> string option" where
  "page_referrer event = (case pe_page event of None \<Rightarrow> None | Some pg \<Rightarrow> pg_referrer pg)"

definition startNewSession :: "env \<Rightarrow> user_profile \<Rightarrow> pevent \<Rightarrow> user_profile" where
  "startNewSession e user event =
     (let user1 = (case currentSession user of
                     None \<Rightarrow> user
                   | Some cur \<Rightarrow> user\<lparr>sessions := sessions user @ [cur]\<rparr>);
          fresh = \<lparr>ps_id = new_session_id e, startTime = pe_timestamp event,
                   lastActivity = pe_timestamp event, duration = 0, pageViews = 0, clicks = 0,
                   conversions = 0, formSubmissions = 0, ps_events = [],
                   entryPage = or_else (page_url event) (pe_url event),
                   ps_device = pe_device event, ps_referrer = page_referrer event\<rparr>
      in user1\<lparr>currentSession := Some fresh,
                metrics := (metrics user1)\<lparr>m_totalSessions := m_totalSessions (metrics user1) + 1\<rparr>\<rparr>)"

text \<open>\<open>obj[k] = (obj[k] || 0) + 1\<close> on an object used as a table of counts.\<close>

definition bump :: "string \<Rightarrow> (string \<times> nat) list \<Rightarrow> (string \<times> nat) list" where
  "bump k tab = AList.update k ((case map_of tab k of None \<Rightarrow> 0 | Some c \<Rightarrow> c) + 1) tab"

definition updatePageMetrics :: "user_profile \<Rightarrow> pevent \<Rightarrow> user_profile" where
  "updatePageMetrics user event =
     (let url = or_else (page_url event) (pe_url event);
          user1 = (if truthy url
                   then user\<lparr>metrics := (metrics user)\<lparr>pages := bump (the url) (pages (metrics user))\<rparr>\<rparr>
                   else user);
          referrer = page_referrer event
      in if truthy referrer
         then user1\<lparr>metrics := (metrics user1)\<lparr>referrers := bump (the referrer) (referrers (metrics user1))\<rparr>\<rparr>
         else user1)"

text \<open>
  \<open>getDeviceType\<close> tests regular expressions, and \<open>test\<close> converts its argument to a
  string: an absent user agent is tested as the text \<open>undefined\<close>. \<open>getBrowser\<close> calls
  \<open>userAgent.includes\<close>, which raises on an absent user agent.
\<close>

definition getDeviceType :: "string option \<Rightarrow> string" where
  "getDeviceType agent =
     (let ua = (case agent of None \<Rightarrow> ''undefined'' | Some s \<Rightarrow> s) in
      if str_includes ua ''Mobile'' \<or> str_includes ua ''Android'' \<or> str_includes ua ''iPhone''
         \<or> str_includes ua ''iPad''
      then ''mobile''
      else if str_includes ua ''Tablet'' then ''tablet''
      else ''desktop'')"

definition getBrowser :: "string option \<Rightarrow> js_error + string" where
  "getBrowser agent =
     (case agent of
        None \<Rightarrow> Inl TypeError
      | Some ua \<Rightarrow>
          Inr (if str_includes ua ''Chrome'' then ''Chrome''
               else if str_includes ua ''Firefox'' then ''Firefox''
               else if str_includes ua ''Safari'' then ''Safari''
               else if str_includes ua ''Edge'' then ''Edge''
               else ''Other''))"

text \<open>
  \<open>updateDeviceMetrics\<close> counts the device type before it asks for the browser; when
  \<open>getBrowser\<close> raises, the first count stays.
\<close>

definition updateDeviceMetrics :: "user_profile \<Rightarrow> device_info \<Rightarrow> user_profile outcome" where
  "updateDeviceMetrics user device =
     (let user1 = user\<lparr>metrics := (metrics user)
                    \<lparr>deviceTypes := bump (getDeviceType (userAgent device)) (deviceTypes (metrics user))\<rparr>\<rparr>
      in case getBrowser (userAgent device) of
           Inl err \<Rightarrow> Throws err user1
         | Inr browser \<Rightarrow>
             Returns (user1\<lparr>metrics := (metrics user1)
                        \<lparr>browsers := bump browser (browsers (metrics user1))\<rparr>\<rparr>))"

text \<open>
  \<open>updateUserProfile\<close>. The local \<open>session\<close> of the source is the object in
  \<open>user.currentSession\<close>; every write to it is a write to that field. The profile is
  changed in place, so when a step raises, the changes made before it remain.
\<close>

definition on_session :: "(psession \<Rightarrow> psession) \<Rightarrow> user_profile \<Rightarrow> user_profile" where
  "on_session f user = user\<lparr>currentSession := map_option f (currentSession user)\<rparr>"

text \<open>
  The \<open>switch\<close> on the type of the event. In the \<open>custom\<close> case a truthy \<open>name\<close> is
  asked whether it includes \<open>conversion\<close>, which raises when the name has no such method.
\<close>

definition count_event :: "pevent \<Rightarrow> user_profile \<Rightarrow> user_profile outcome" where
  "count_event event user =
     (if pe_type event = ''pageview'' then
        Returns (updatePageMetrics
          (on_session (\<lambda>s. s\<lparr>pageViews := pageViews s + 1\<rparr>)
             (user\<lparr>metrics := (metrics user)\<lparr>totalPageViews := totalPageViews (metrics user) + 1\<rparr>\<rparr>))
          event)
      else if pe_type event = ''click'' then
        Returns (on_session (\<lambda>s. s\<lparr>clicks := clicks s + 1\<rparr>)
          (user\<lparr>metrics := (metrics user)\<lparr>totalClicks := totalClicks (metrics user) + 1\<rparr>\<rparr>))
      else if pe_type event = ''custom'' then
        (if truthy_val (pe_name event) then
           (case includes_str (pe_name event) ''conversion'' of
              Inl err \<Rightarrow> Throws err user
            | Inr True \<Rightarrow>
                Returns (on_session (\<lambda>s. s\<lparr>conversions := conversions s + 1\<rparr>)
                  (user\<lparr>metrics := (metrics user)\<lparr>conversionEvents := conversionEvents (metrics user) + 1\<rparr>\<rparr>))
            | Inr False \<Rightarrow> Returns user)
         else Returns user)
      else if pe_type event = ''form_submit'' then
        Returns (on_session (\<lambda>s. s\<lparr>formSubmissions := formSubmissions s + 1\<rparr>) user)
      else Returns user)"

definition updateUserProfile :: "env \<Rightarrow> user_profile \<Rightarrow> pevent \<Rightarrow> user_profile outcome" where
  "updateUserProfile e user event =
     (let user1 = user\<lparr>lastSeen := pe_timestamp event\<rparr>;
          user2 = (case currentSession user1 of
                     None \<Rightarrow> startNewSession e user1 event
                   | Some cur \<Rightarrow> if isNewSession cur event then startNewSession e user1 event else user1);
          user3 = on_session (\<lambda>s. s\<lparr>ps_events := ps_events s @ [event],
                                      lastActivity := pe_timestamp event\<rparr>) user2
      in case count_event event user3 of
           Throws err u \<Rightarrow> Throws err u
         | Returns user4 \<Rightarrow>
             (case (case pe_device event of
                      None \<Rightarrow> Returns user4
                    | Some d \<Rightarrow> updateDeviceMetrics user4 d) of
                Throws err u \<Rightarrow> Throws err u
              | Returns user5 \<Rightarrow>
                  let user6 = on_session (\<lambda>s. s\<lparr>duration := lastActivity s - startTime s\<rparr>) user5
                  in Returns (user6\<lparr>metrics := (metrics user6)
                       \<lparr>totalDuration := foldl (\<lambda>acc s. acc + duration s) 0 (sessions user6)\<rparr>\<rparr>)))"

subsection \<open>Metrics and rules\<close>

definition getMostFrequentDevice :: "user_profile \<Rightarrow> string" where
  "getMostFrequentDevice user =
     snd (foldl (\<lambda>(maxCount, mostFrequent) (device, count).
                   if count > maxCount then (count, device) else (maxCount, mostFrequent))
                (0, ''desktop'') (deviceTypes (metrics user)))"

definition getMobileSessionRatio :: "user_profile \<Rightarrow> jsnum" where
  "getMobileSessionRatio user =
     (let mobileCount = (case map_of (deviceTypes (metrics user)) ''mobile'' of None \<Rightarrow> 0 | Some c \<Rightarrow> c);
          totalSessions = m_totalSessions (metrics user)
      in if totalSessions > 0 then js_div (int mobileCount) (int totalSessions) else Fin 0)"

text \<open>
  \<open>session?.field || 0\<close>: the field of the current session, or zero without a session.
  The time frame is \<open>"all"\<close> when the rule gives none.
\<close>

definition session_field :: "(psession \<Rightarrow> int) \<Rightarrow> user_profile \<Rightarrow> jsval" where
  "session_field f user =
     (case currentSession user of None \<Rightarrow> VNum (Fin 0) | Some s \<Rightarrow> VNum (Fin (of_int (f s))))"

definition getUserMetric :: "user_profile \<Rightarrow> string \<Rightarrow> string option \<Rightarrow> jsval" where
  "getUserMetric user m tf =
     (let in_session = (tf = Some ''session'') in
      if m = ''pageViews'' then
        (if in_session then session_field (\<lambda>s. int (pageViews s)) user
         else VNum (Fin (of_nat (totalPageViews (metrics user)))))
      else if m = ''sessionDuration'' then
        (if in_session then session_field duration user
         else VNum (js_div (totalDuration (metrics user)) (int (m_totalSessions (metrics user)))))
      else if m = ''clickCount'' then
        (if in_session then session_field (\<lambda>s. int (clicks s)) user
         else VNum (Fin (of_nat (totalClicks (metrics user)))))
      else if m = ''conversionEvents'' then
        (if in_session then session_field (\<lambda>s. int (conversions s)) user
         else VNum (Fin (of_nat (conversionEvents (metrics user)))))
      else if m = ''deviceType'' then VStr (getMostFrequentDevice user)
      else if m = ''mobileSessionRatio'' then VNum (getMobileSessionRatio user)
      else if m = ''funnelCompletion'' then
        VBool (case currentSession user of None \<Rightarrow> False | Some s \<Rightarrow> conversions s > 0)
      else VNum (Fin 0))"

definition evaluateRule :: "coercions \<Rightarrow> user_profile \<Rightarrow> rule \<Rightarrow> js_error + bool" where
  "evaluateRule h user r =
     (let v = getUserMetric user (metric r) (timeframe r) in
      if operator r = ''>'' then Inr (js_gt h v (rl_value r))
      else if operator r = ''<'' then Inr (js_lt h v (rl_value r))
      else if operator r = ''>='' then Inr (js_ge h v (rl_value r))
      else if operator r = ''<='' then Inr (js_le h v (rl_value r))
      else if operator r = ''='' then Inr (strict_eq v (rl_value r))
      else if operator r = ''!='' then Inr (\<not> strict_eq v (rl_value r))
      else if operator r = ''between'' then
        (case prop_index (rl_value r) 0 of
           Inl e \<Rightarrow> Inl e
         | Inr lo \<Rightarrow>
             if js_ge h v lo
             then (case prop_index (rl_value r) 1 of Inl e \<Rightarrow> Inl e | Inr hi \<Rightarrow> Inr (js_le h v hi))
             else Inr False)
      else if operator r = ''in'' then includes_val h (rl_value r) v
      else Inr False)"

text \<open>\<open>rules.every\<close>: stops at the first rule that is false; an exception passes through.\<close>

fun every_rule :: "coercions \<Rightarrow> user_profile \<Rightarrow> rule list \<Rightarrow> js_error + bool" where
  "every_rule h user [] = Inr True"
| "every_rule h user (r # rs) =
     (case evaluateRule h user r of
        Inl e \<Rightarrow> Inl e
      | Inr False \<Rightarrow> Inr False
      | Inr True \<Rightarrow> every_rule h user rs)"

definition userMatchesPersona :: "coercions \<Rightarrow> user_profile \<Rightarrow> persona \<Rightarrow> js_error + bool" where
  "userMatchesPersona h user p = every_rule h user (p_rules p)"

definition rule_score :: "coercions \<Rightarrow> user_profile \<Rightarrow> rule \<Rightarrow> jsnum" where
  "rule_score h user r =
     (let userValue = getUserMetric user (metric r) (timeframe r); ruleValue = rl_value r in
      if operator r = ''>'' \<and> js_gt h userValue ruleValue
      then js_min (Fin 1) (js_quot (to_num h userValue) (js_mul (to_num h ruleValue) (Fin 2)))
      else if operator r = ''='' \<and> strict_eq userValue ruleValue then Fin 1
      else Fin 0)"

definition calculatePersonaConfidence :: "coercions \<Rightarrow> user_profile \<Rightarrow> persona \<Rightarrow> jsnum" where
  "calculatePersonaConfidence h user p =
     (let score = foldl (\<lambda>score r. js_add score (rule_score h user r)) (Fin 0) (p_rules p);
          totalRules = Fin (of_nat (length (p_rules p)))
      in js_round (js_mul (js_quot score totalRules) (Fin 100)))"

subsection \<open>Assigning personas\<close>

text \<open>\<open>Set.add\<close> and \<open>Set.delete\<close> on the members of a segment.\<close>

definition set_add :: "string \<Rightarrow> string list \<Rightarrow> string list" where
  "set_add x xs = (if x \<in> set xs then xs else xs @ [x])"

definition set_delete :: "string \<Rightarrow> string list \<Rightarrow> string list" where
  "set_delete x xs = removeAll x xs"

text \<open>
  The state of \<open>analyzeUserPersona\<close> while it runs: the set \<open>newPersonas\<close>, the
  \<open>personas\<close> list of the user and the segments of the analyzer.
\<close>

record assigning =
  newPersonas :: "string list"
  user_personas :: "assignment list"
  segs :: "(string \<times> segment) list"

text \<open>
  The \<open>forEach\<close> over the configured personas. The assignment is pushed before the segment
  is looked up; a persona without a segment raises at that point.
\<close>

fun assign_personas ::
  "coercions \<Rightarrow> int \<Rightarrow> user_profile \<Rightarrow> string list \<Rightarrow> persona list \<Rightarrow> assigning \<Rightarrow> assigning outcome" where
  "assign_personas h t user currentPersonas [] st = Returns st"
| "assign_personas h t user currentPersonas (p # ps) st =
     (case userMatchesPersona h user p of
        Inl e \<Rightarrow> Throws e st
      | Inr False \<Rightarrow> assign_personas h t user currentPersonas ps st
      | Inr True \<Rightarrow>
          let st1 = st\<lparr>newPersonas := set_add (p_id p) (newPersonas st)\<rparr> in
          if p_id p \<in> set currentPersonas then assign_personas h t user currentPersonas ps st1
          else
            let st2 = st1\<lparr>user_personas := user_personas st1 @
                         [\<lparr>as_id = p_id p, assignedAt = t,
                           confidence = calculatePersonaConfidence h user p\<rparr>]\<rparr>
            in (case map_of (segs st2) (p_id p) of
                  None \<Rightarrow> Throws TypeError st2
                | Some sg \<Rightarrow>
                    assign_personas h t user currentPersonas ps
                      (st2\<lparr>segs := AList.update (p_id p)
                                      (sg\<lparr>seg_users := set_add (u_id user) (seg_users sg)\<rparr>) (segs st2)\<rparr>)))"

text \<open>
  The \<open>filter\<close> over the assignments of the user. It returns the assignments that stay
  and the segments after the deletions; when a segment is missing the callback raises,
  the filtered list is lost and the deletions made so far remain.
\<close>

fun drop_personas ::
  "string \<Rightarrow> string list \<Rightarrow> assignment list \<Rightarrow> (string \<times> segment) list
     \<Rightarrow> (assignment list \<times> (string \<times> segment) list) outcome" where
  "drop_personas uid keep [] sgs = Returns ([], sgs)"
| "drop_personas uid keep (a # as) sgs =
     (if as_id a \<notin> set keep then
        (case map_of sgs (as_id a) of
           None \<Rightarrow> Throws TypeError ([], sgs)
         | Some sg \<Rightarrow>
             drop_personas uid keep as
               (AList.update (as_id a) (sg\<lparr>seg_users := set_delete uid (seg_users sg)\<rparr>) sgs))
      else (case drop_personas uid keep as sgs of
              Returns (kept, sgs') \<Rightarrow> Returns (a # kept, sgs')
            | Throws e (kept, sgs') \<Rightarrow> Throws e (kept, sgs')))"

text \<open>\<open>updatePersonaMetrics\<close> recomputes the metrics of every segment from its members.\<close>

definition segment_members :: "persona_analyzer \<Rightarrow> segment \<Rightarrow> user_profile list" where
  "segment_members pa sg = List.map_filter (map_of (users pa)) (seg_users sg)"

definition per_session :: "int \<Rightarrow> user_profile \<Rightarrow> jsnum" where
  "per_session amount u = js_div amount (int (m_totalSessions (metrics u)))"

definition recompute :: "int \<Rightarrow> persona_analyzer \<Rightarrow> segment \<Rightarrow> segment" where
  "recompute t pa sg =
     (let us = segment_members pa sg;
          n = length us;
          m1 = (seg_metrics sg)\<lparr>sm_totalUsers := n,
                                  sm_activeUsers := length (filter (\<lambda>u. t - lastSeen u < 86400000) us)\<rparr>;
          m2 = (if n > 0 then
                  m1\<lparr>avgSessionDuration :=
                        js_quot (foldl (\<lambda>sum u. js_add sum (per_session (totalDuration (metrics u)) u))
                                       (Fin 0) us) (Fin (of_nat n)),
                      avgPageViews :=
                        js_quot (foldl (\<lambda>sum u. js_add sum (per_session (int (totalPageViews (metrics u))) u))
                                       (Fin 0) us) (Fin (of_nat n)),
                      sm_conversionRate :=
                        js_div (int (length (filter (\<lambda>u. conversionEvents (metrics u) > 0) us))) (int n)\<rparr>
                else m1)
      in sg\<lparr>seg_metrics := m2\<rparr>)"

definition updatePersonaMetrics :: "int \<Rightarrow> persona_analyzer \<Rightarrow> persona_analyzer" where
  "updatePersonaMetrics t pa = pa\<lparr>segments := map (\<lambda>(pid, sg). (pid, recompute t pa sg)) (segments pa)\<rparr>"

text \<open>
  \<open>analyzeUserPersona\<close>. The profile is the object stored in the \<open>users\<close> map under its
  id, so what is written to it is written to that entry.
\<close>

definition put_user :: "user_profile \<Rightarrow> persona_analyzer \<Rightarrow> persona_analyzer" where
  "put_user user pa = pa\<lparr>users := AList.update (u_id user) user (users pa)\<rparr>"

definition analyzeUserPersona ::
  "coercions \<Rightarrow> int \<Rightarrow> user_profile \<Rightarrow> persona_analyzer \<Rightarrow> persona_analyzer outcome" where
  "analyzeUserPersona h t user pa =
     (let currentPersonas = map as_id (personas user) in
      case assign_personas h t user currentPersonas (cfg_personas pa)
             \<lparr>newPersonas = [], user_personas = personas user, segs = segments pa\<rparr> of
        Throws e st \<Rightarrow>
          Throws e (put_user (user\<lparr>personas := user_personas st\<rparr>) (pa\<lparr>segments := segs st\<rparr>))
      | Returns st \<Rightarrow>
          (case drop_personas (u_id user) (newPersonas st) (user_personas st) (segs st) of
             Throws e (kept, sgs) \<Rightarrow>
               Throws e (put_user (user\<lparr>personas := user_personas st\<rparr>) (pa\<lparr>segments := sgs\<rparr>))
           | Returns (kept, sgs) \<Rightarrow>
               Returns (updatePersonaMetrics t
                          (put_user (user\<lparr>personas := kept\<rparr>) (pa\<lparr>segments := sgs\<rparr>)))))"

text \<open>
  \<open>addUserEvent\<close> gets the profile of the user, or creates and stores one, updates it in
  place and analyses it. When the update raises, the profile stays as the update left it
  and the analysis is not reached.
\<close>

definition get_or_create :: "env \<Rightarrow> string \<Rightarrow> persona_analyzer \<Rightarrow> user_profile" where
  "get_or_create e userId pa =
     (case map_of (users pa) userId of
        None \<Rightarrow> createUserProfile (now e) userId
      | Some u \<Rightarrow> u)"

definition addUserEvent ::
  "coercions \<Rightarrow> env \<Rightarrow> string \<Rightarrow> pevent \<Rightarrow> persona_analyzer \<Rightarrow> persona_analyzer outcome" where
  "addUserEvent h e userId event pa =
     (case updateUserProfile e (get_or_create e userId pa) event of
        Throws err u \<Rightarrow> Throws err (pa\<lparr>users := AList.update userId u (users pa)\<rparr>)
      | Returns user1 \<Rightarrow>
          analyzeUserPersona h (now e) user1 (pa\<lparr>users := AList.update userId user1 (users pa)\<rparr>))"

subsection \<open>Example events and profiles\<close>

definition power_user :: "int \<Rightarrow> persona" where
  "power_user t = fst (definePersona t ''power_user'' power_user_config
                         \<lparr>cfg_personas = [], users = [], segments = []\<rparr>)"

definition page_view :: "int \<Rightarrow> pevent" where
  "page_view t = \<lparr>pe_type = ''pageview'', pe_timestamp = t, pe_name = VUndefined, pe_url = Some ''/home'',
                  pe_page = None, pe_device = None\<rparr>"

definition click_at :: "int \<Rightarrow> pevent" where
  "click_at t = \<lparr>pe_type = ''click'', pe_timestamp = t, pe_name = VUndefined, pe_url = Some ''/home'',
                 pe_page = None, pe_device = None\<rparr>"

definition env_a :: env where
  "env_a = \<lparr>now = 0, new_session_id = ''session_a''\<rparr>"

definition env_b :: env where
  "env_b = \<lparr>now = 2000000, new_session_id = ''session_b''\<rparr>"

text \<open>One user views a page and clicks a minute later.\<close>

definition one_visit :: persona_analyzer where
  "one_visit =
     state_of (addUserEvent example_coercions env_a ''u1'' (click_at 60000)
       (state_of (addUserEvent example_coercions env_a ''u1'' (page_view 0) (new_persona_analyzer 0))))"

text \<open>The same user comes back more than thirty minutes later.\<close>

definition second_visit :: persona_analyzer where
  "second_visit = state_of (addUserEvent example_coercions env_b ''u1'' (page_view 2000000) one_visit)"

text \<open>
  A page view whose device is the object that \<open>getDeviceInfo\<close> of the main script builds
  (type, browser, language and viewport): it has no \<open>userAgent\<close>.
\<close>

definition bare_device_view :: "int \<Rightarrow> pevent" where
  "bare_device_view t = (page_view t)\<lparr>pe_device := Some \<lparr>userAgent = None\<rparr>\<rparr>"

definition broken_visit :: "persona_analyzer outcome" where
  "broken_visit = addUserEvent example_coercions env_b ''u1'' (bare_device_view 2000000) one_visit"

text \<open>
  A profile whose current session has the given numbers of page views and clicks and the
  given duration, and the default analyzer holding it.
\<close>

definition profile_with :: "nat \<Rightarrow> int \<Rightarrow> nat \<Rightarrow> assignment list \<Rightarrow> user_profile" where
  "profile_with pv d c ps =
     (createUserProfile 0 ''u1'')
       \<lparr>currentSession := Some \<lparr>ps_id = ''session_a'', startTime = 0, lastActivity = d, duration = d,
                                pageViews = pv, clicks = c, conversions = 0, formSubmissions = 0,
                                ps_events = [], entryPage = None, ps_device = None,
                                ps_referrer = None\<rparr>,
         personas := ps,
         metrics := (metrics (createUserProfile 0 ''u1''))
                      \<lparr>m_totalSessions := 1, totalPageViews := pv, totalClicks := c\<rparr>\<rparr>"

definition engaged_profile :: user_profile where
  "engaged_profile = profile_with 11 310000 55 []"

definition engaged_analyzer :: persona_analyzer where
  "engaged_analyzer = put_user engaged_profile (new_persona_analyzer 0)"

definition engaged_result :: persona_analyzer where
  "engaged_result = state_of (analyzeUserPersona example_coercions 0 engaged_profile engaged_analyzer)"

text \<open>
  The same user is then stored with nine clicks in the current session, and clicks once
  more: the session click count of that ingest is ten.
\<close>

definition lapsed_profile :: user_profile where
  "lapsed_profile = profile_with 11 310000 9 (personas (the (map_of (users engaged_result) ''u1'')))"

definition lapsed_analyzer :: persona_analyzer where
  "lapsed_analyzer = put_user lapsed_profile engaged_result"

definition lapsed_click :: "persona_analyzer outcome" where
  "lapsed_click = addUserEvent example_coercions env_a ''u1'' (click_at 310000) lapsed_analyzer"

text \<open>
  The same analyzer with one more persona, whose rule applies \<open>in\<close> to a number, and the
  same click.
\<close>

definition vip_config :: persona_config where
  "vip_config =
     \<lparr>pc_name = Some ''VIP'', pc_description = None,
      pc_rules = Some [\<lparr>metric = ''pageViews'', operator = ''in'', rl_value = num 5, timeframe = None\<rparr>],
      pc_color = None\<rparr>"

definition vip_analyzer :: persona_analyzer where
  "vip_analyzer = snd (definePersona 0 ''vip'' vip_config lapsed_analyzer)"

definition vip_click :: "persona_analyzer outcome" where
  "vip_click = addUserEvent example_coercions env_a ''u1'' (click_at 310000) vip_analyzer"

section \<open>Delivery of events\<close>

text \<open>
  \<open>sendEvents\<close> is an \<open>async\<close> function: it runs to its first \<open>await\<close>, and the rest
  runs when the awaited request settles. Between the two, the listeners of the page and
  the timer run. The model keeps, beside the object, the calls that are suspended and the
  requests that were issued; a step is one callback of the event loop.
\<close>

record tevent =
  te_type :: string
  te_timestamp :: int
  te_sessionId :: "string option"
  te_userId :: "string option"
  te_projectId :: "string option"

subsection \<open>StandLogTracker (js/modules/tracking/core.js)\<close>

record tracker =
  tr_key :: string
  tr_sessionId :: "string option"
  tr_userId :: "string option"
  tr_events :: "tevent list"

text \<open>The body of one POST to the events endpoint, and the \<open>keepalive\<close> flag of the call.\<close>

record request =
  rq_events :: "tevent list"
  rq_keepalive :: bool

text \<open>
  How a request settles: a response with \<open>response.ok\<close>, a response with another
  status, or a rejection.
\<close>

datatype response = ResponseOk | ResponseStatus | NetworkError

record tworld =
  tw_tracker :: tracker
  in_flight :: "request list"
  sent :: "request list"

text \<open>
  \<open>sendEvents\<close> up to \<open>await fetch(...)\<close>: nothing happens on an empty buffer; otherwise
  the payload is a copy of the buffer and the request is issued.
\<close>

definition sendEvents_start :: "bool \<Rightarrow> tworld \<Rightarrow> tworld" where
  "sendEvents_start isBeforeUnload w =
     (if tr_events (tw_tracker w) = [] then w
      else let rq = \<lparr>rq_events = tr_events (tw_tracker w), rq_keepalive = isBeforeUnload\<rparr>
           in w\<lparr>in_flight := in_flight w @ [rq], sent := sent w @ [rq]\<rparr>)"

text \<open>
  \<open>sendEvents\<close> after the \<open>await\<close>: the buffer is emptied when the response is ok; a
  rejection is caught and logged.
\<close>

definition sendEvents_resume :: "response \<Rightarrow> tworld \<Rightarrow> tworld" where
  "sendEvents_resume r w =
     (case r of
        ResponseOk \<Rightarrow> w\<lparr>tw_tracker := (tw_tracker w)\<lparr>tr_events := []\<rparr>\<rparr>
      | ResponseStatus \<Rightarrow> w
      | NetworkError \<Rightarrow> w)"

definition stamp :: "tracker \<Rightarrow> tevent \<Rightarrow> tevent" where
  "stamp tr eventData =
     eventData\<lparr>te_sessionId := tr_sessionId tr, te_userId := tr_userId tr,
               te_projectId := Some (tr_key tr)\<rparr>"

definition tr_addEvent :: "tevent \<Rightarrow> tworld \<Rightarrow> tworld" where
  "tr_addEvent eventData w =
     (let tr = tw_tracker w;
          w1 = w\<lparr>tw_tracker := tr\<lparr>tr_events := tr_events tr @ [stamp tr eventData]\<rparr>\<rparr>
      in if length (tr_events (tw_tracker w1)) \<ge> 10 then sendEvents_start False w1 else w1)"

text \<open>The callback of \<open>setInterval\<close> (every 5000 ms) and the \<open>beforeunload\<close> listener.\<close>

definition interval_tick :: "tworld \<Rightarrow> tworld" where
  "interval_tick w = (if length (tr_events (tw_tracker w)) > 0 then sendEvents_start False w else w)"

definition before_unload :: "tworld \<Rightarrow> tworld" where
  "before_unload w = sendEvents_start True w"

datatype tr_action = Enqueue tevent | Tick | Unload | Respond nat response

text \<open>\<open>Respond i r\<close>: the request at position \<open>i\<close> among those in flight settles with \<open>r\<close>.\<close>

definition drop_nth :: "nat \<Rightarrow> 'a list \<Rightarrow> 'a list" where
  "drop_nth i xs = take i xs @ drop (Suc i) xs"

fun tr_step :: "tr_action \<Rightarrow> tworld \<Rightarrow> tworld" where
  "tr_step (Enqueue e) w = tr_addEvent e w"
| "tr_step Tick w = interval_tick w"
| "tr_step Unload w = before_unload w"
| "tr_step (Respond i r) w =
     (if i < length (in_flight w)
      then sendEvents_resume r (w\<lparr>in_flight := drop_nth i (in_flight w)\<rparr>)
      else w)"

definition tr_run :: "tr_action list \<Rightarrow> tworld \<Rightarrow> tworld" where
  "tr_run acts w = foldl (\<lambda>w a. tr_step a w) w acts"

definition idle_tracker :: "string \<Rightarrow> string \<Rightarrow> string \<Rightarrow> tworld" where
  "idle_tracker k sid uid =
     \<lparr>tw_tracker = \<lparr>tr_key = k, tr_sessionId = Some sid, tr_userId = Some uid, tr_events = []\<rparr>,
      in_flight = [], sent = []\<rparr>"

subsection \<open>StandLogAnalytics (the main script)\<close>

record analytics =
  sa_sessionId :: string
  sa_anonymousId :: string
  sessionCreated :: bool
  sa_events :: "tevent list"

text \<open>
  What a request yields: a rejection, or a response with its \<open>ok\<close> flag and its body; the
  body does not parse to an object, or it is an object whose \<open>id\<close> may be absent.
\<close>

datatype body = BadJson | Json "string option"

datatype reply = Rejected | Reply bool body

text \<open>
  A suspended \<open>sendEvents\<close> call, with its \<open>isBeforeUnload\<close> argument: inside
  \<open>ensureSession\<close> waiting for the session request; after \<open>ensureSession\<close> returned, before
  the call goes on; waiting for the events request.
\<close>

datatype task = AwaitSession bool | AfterEnsure bool | AwaitEvents bool

text \<open>
  What the page did on the network, in order: a session request with its anonymous id,
  the end of the handling of its outcome (with the id adopted there, if any), an events
  request with its session id, events and \<open>keepalive\<close> flag.
\<close>

datatype net_entry =
  SessionRequest string
| SessionSettled "string option"
| EventsRequest string "tevent list" bool

record aworld =
  an :: analytics
  tasks :: "task list"
  net :: "net_entry list"

text \<open>
  \<open>sendEvents\<close> up to its first suspension. \<open>ensureSession\<close> returns at once when the
  session was created before; otherwise it issues the session request and waits.
\<close>

definition sa_sendEvents :: "bool \<Rightarrow> aworld \<Rightarrow> aworld" where
  "sa_sendEvents isBeforeUnload w =
     (if sa_events (an w) = [] then w
      else if sessionCreated (an w) then w\<lparr>tasks := tasks w @ [AfterEnsure isBeforeUnload]\<rparr>
      else w\<lparr>tasks := tasks w @ [AwaitSession isBeforeUnload],
             net := net w @ [SessionRequest (sa_anonymousId (an w))]\<rparr>)"

definition sa_addEvent :: "tevent \<Rightarrow> aworld \<Rightarrow> aworld" where
  "sa_addEvent eventData w =
     (let w1 = w\<lparr>an := (an w)\<lparr>sa_events := sa_events (an w) @ [eventData]\<rparr>\<rparr>
      in if length (sa_events (an w1)) \<ge> 5 then sa_sendEvents False w1 else w1)"

text \<open>
  The rest of \<open>ensureSession\<close>: on an ok response whose body parses, a truthy \<open>id\<close> replaces
  the session id, and the session counts as created. Any failure is caught.
\<close>

definition ensureSession_resume :: "reply \<Rightarrow> aworld \<Rightarrow> aworld" where
  "ensureSession_resume r w =
     (case r of
        Rejected \<Rightarrow> w\<lparr>net := net w @ [SessionSettled None]\<rparr>
      | Reply ok b \<Rightarrow>
          if ok then
            (case b of
               BadJson \<Rightarrow> w\<lparr>net := net w @ [SessionSettled None]\<rparr>
             | Json i \<Rightarrow>
                 if truthy i
                 then w\<lparr>an := (an w)\<lparr>sa_sessionId := the i, sessionCreated := True\<rparr>,
                        net := net w @ [SessionSettled i]\<rparr>
                 else w\<lparr>an := (an w)\<lparr>sessionCreated := True\<rparr>,
                        net := net w @ [SessionSettled None]\<rparr>)
          else w\<lparr>net := net w @ [SessionSettled None]\<rparr>)"

text \<open>
  \<open>sendEvents\<close> after \<open>ensureSession\<close>: the payload is built from the session id and the
  buffer as they are now (\<open>formatEventForAPI\<close> reshapes each event and drops none; the
  payload is given by the events themselves), and the events request is issued.
\<close>

definition sa_send_payload :: "bool \<Rightarrow> aworld \<Rightarrow> aworld" where
  "sa_send_payload isBeforeUnload w =
     w\<lparr>tasks := tasks w @ [AwaitEvents isBeforeUnload],
       net := net w @ [EventsRequest (sa_sessionId (an w)) (sa_events (an w)) isBeforeUnload]\<rparr>"

text \<open>
  \<open>sendEvents\<close> after the events request: any response empties the buffer (the status is
  not looked at); a rejection is caught.
\<close>

definition sa_events_resume :: "reply \<Rightarrow> aworld \<Rightarrow> aworld" where
  "sa_events_resume r w =
     (case r of
        Rejected \<Rightarrow> w
      | Reply ok b \<Rightarrow> w\<lparr>an := (an w)\<lparr>sa_events := []\<rparr>\<rparr>)"

datatype sa_action = Add tevent | BeforeUnload | Resume nat reply

text \<open>
  \<open>Resume i r\<close>: the suspended call at position \<open>i\<close> goes on; \<open>r\<close> is the outcome of the
  request it waits for (a call that waits for no request ignores it).
\<close>

fun sa_resume :: "task \<Rightarrow> reply \<Rightarrow> aworld \<Rightarrow> aworld" where
  "sa_resume (AwaitSession b) r w =
     (let w1 = ensureSession_resume r w in w1\<lparr>tasks := tasks w1 @ [AfterEnsure b]\<rparr>)"
| "sa_resume (AfterEnsure b) r w = sa_send_payload b w"
| "sa_resume (AwaitEvents b) r w = sa_events_resume r w"

fun sa_step :: "sa_action \<Rightarrow> aworld \<Rightarrow> aworld" where
  "sa_step (Add e) w = sa_addEvent e w"
| "sa_step BeforeUnload w = sa_sendEvents True w"
| "sa_step (Resume i r) w =
     (if i < length (tasks w)
      then sa_resume (tasks w ! i) r (w\<lparr>tasks := drop_nth i (tasks w)\<rparr>)
      else w)"

definition sa_run :: "sa_action list \<Rightarrow> aworld \<Rightarrow> aworld" where
  "sa_run acts w = foldl (\<lambda>w a. sa_step a w) w acts"

text \<open>The object after its constructor, before any request: no session created yet.\<close>

definition new_analytics :: "string \<Rightarrow> string \<Rightarrow> tevent list \<Rightarrow> aworld" where
  "new_analytics sid aid es =
     \<lparr>an = \<lparr>sa_sessionId = sid, sa_anonymousId = aid, sessionCreated = False, sa_events = es\<rparr>,
      tasks = [], net = []\<rparr>"

text \<open>The session id in force after a stretch of network activity.\<close>

definition adopted_id :: "string \<Rightarrow> net_entry list \<Rightarrow> string" where
  "adopted_id sid0 entries =
     foldl (\<lambda>cur e. case e of SessionSettled (Some i) \<Rightarrow> i | _ \<Rightarrow> cur) sid0 entries"

definition is_settled :: "net_entry \<Rightarrow> bool" where
  "is_settled e = (case e of SessionSettled i \<Rightarrow> True | _ \<Rightarrow> False)"

subsection \<open>Example events\<close>

definition click_event :: "int \<Rightarrow> tevent" where
  "click_event t = \<lparr>te_type = ''click'', te_timestamp = t, te_sessionId = None, te_userId = None,
                    te_projectId = None\<rparr>"

definition demo_tracker :: tworld where
  "demo_tracker = idle_tracker ''key'' ''s1'' ''u1''"

text \<open>A tracker with one event in its buffer, and the same after the timer has fired once.\<close>

definition one_buffered :: tworld where
  "one_buffered = tr_run [Enqueue (click_event 1)] demo_tracker"

definition one_in_flight :: tworld where
  "one_in_flight = tr_step Tick one_buffered"

definition ten_clicks :: "tevent list" where
  "ten_clicks = map (\<lambda>t. click_event (int t)) [1..<11]"

definition nine_clicks :: "tevent list" where
  "nine_clicks = map (\<lambda>t. click_event (int t)) [1..<10]"

text \<open>
  Five events are added, the session request is answered with the id \<open>srv1\<close>, and the
  suspended call goes on to its events request.
\<close>

definition served :: aworld where
  "served = sa_run (map Add (take 5 ten_clicks) @ [Resume 0 (Reply True (Json (Some ''srv1''))), Resume 0 Rejected])
                   (new_analytics ''local'' ''anon'' [])"

text \<open>
  The same five events when the session request is rejected, and when it is answered with
  a status that is not ok; in \<open>unserved_done\<close> the events request is then answered.
\<close>

definition unserved :: aworld where
  "unserved = sa_run (map Add (take 5 ten_clicks) @ [Resume 0 Rejected, Resume 0 Rejected])
                     (new_analytics ''local'' ''anon'' [])"

definition refused :: aworld where
  "refused = sa_run (map Add (take 5 ten_clicks) @ [Resume 0 (Reply False BadJson), Resume 0 Rejected])
                    (new_analytics ''local'' ''anon'' [])"

definition unserved_done :: aworld where
  "unserved_done = sa_step (Resume 0 (Reply True BadJson)) unserved"

section \<open>Invariants used in the proofs\<close>

text \<open>The session of an entry of the session map has reached step \<open>k\<close>.\<close>

definition at_least :: "nat \<Rightarrow> string \<times> session \<Rightarrow> bool" where
  "at_least k p = (int k \<le> currentStep (snd p))"

text \<open>
  While one event is processed the session in hand is held apart from the other
  sessions: every \<open>reached\<close> counter is the number of sessions at or beyond its step.
\<close>

definition counted :: "session \<times> funnel_stats \<Rightarrow> (string \<times> session) list \<Rightarrow> bool" where
  "counted ss others =
     (\<forall>k<length (st_steps (snd ss)).
        reached (st_steps (snd ss) ! k)
        = (if int k \<le> currentStep (fst ss) then 1 else 0) + length (filter (at_least k) others))"

definition fd_ok :: "funnel_data \<Rightarrow> bool" where
  "fd_ok fd =
     (\<not> allowBacktrack (f_options (fd_funnel fd)) \<longrightarrow>
        length (st_steps (fd_stats fd)) = length (f_steps (fd_funnel fd))
        \<and> distinct (map fst (fd_sessions fd))
        \<and> (\<forall>k<length (st_steps (fd_stats fd)).
              reached (st_steps (fd_stats fd) ! k) = length (filter (at_least k) (fd_sessions fd))))"

definition entries_ok :: "funnel list \<Rightarrow> analyzer \<Rightarrow> bool" where
  "entries_ok fns a =
     ((\<forall>fn\<in>set fns. \<exists>fd. map_of (funnelData a) (f_id fn) = Some fd \<and> fd_funnel fd = fn)
      \<and> (\<forall>fid fd. map_of (funnelData a) fid = Some fd \<longrightarrow> fd_ok fd))"

definition an_inv :: "analyzer \<Rightarrow> bool" where
  "an_inv a = entries_ok (cfg_funnels a) a"

text \<open>
  The session counter of a profile counts the archived sessions and the current one.
\<close>

definition session_count_ok :: "user_profile \<Rightarrow> bool" where
  "session_count_ok u =
     (m_totalSessions (metrics u) = length (sessions u) + (if currentSession u = None then 0 else 1))"

text \<open>
  The events on which \<open>updateUserProfile\<close> runs to its end: a device, when the event has
  one, carries a user agent, and the truthy name of a \<open>custom\<close> event is a string or an
  array.
\<close>

definition has_includes :: "jsval \<Rightarrow> bool" where
  "has_includes v = (case v of VStr s \<Rightarrow> True | VList vs \<Rightarrow> True | _ \<Rightarrow> False)"

definition well_formed_event :: "pevent \<Rightarrow> bool" where
  "well_formed_event ev =
     ((case pe_device ev of None \<Rightarrow> True | Some d \<Rightarrow> userAgent d \<noteq> None)
      \<and> (if pe_type ev = ''custom'' \<and> truthy_val (pe_name ev) then has_includes (pe_name ev) else True))"

text \<open>
  Membership as the segments record it, and the invariant of the persona analyzer: every
  configured persona has a segment, a profile is stored under its own id, every assignment
  of a profile names a persona that has a segment, and a user is a member of a segment
  exactly when the profile of that user is assigned the persona.
\<close>

definition is_member :: "(string \<times> segment) list \<Rightarrow> string \<Rightarrow> string \<Rightarrow> bool" where
  "is_member sgs pid uid = (case map_of sgs pid of None \<Rightarrow> False | Some sg \<Rightarrow> uid \<in> set (seg_users sg))"

definition has_segment :: "(string \<times> segment) list \<Rightarrow> string \<Rightarrow> bool" where
  "has_segment sgs pid = (map_of sgs pid \<noteq> None)"

definition is_assigned :: "persona_analyzer \<Rightarrow> string \<Rightarrow> string \<Rightarrow> bool" where
  "is_assigned pa pid uid =
     (case map_of (users pa) uid of None \<Rightarrow> False | Some u \<Rightarrow> pid \<in> as_id ` set (personas u))"

definition persona_inv :: "persona_analyzer \<Rightarrow> bool" where
  "persona_inv pa =
     ((\<forall>p\<in>set (cfg_personas pa). has_segment (segments pa) (p_id p))
      \<and> (\<forall>uid u. map_of (users pa) uid = Some u \<longrightarrow> u_id u = uid)
      \<and> (\<forall>pid uid. is_assigned pa pid uid \<longrightarrow> has_segment (segments pa) pid)
      \<and> (\<forall>pid uid. has_segment (segments pa) pid \<longrightarrow>
            is_member (segments pa) pid uid = is_assigned pa pid uid))"

text \<open>
  A rule that \<open>evaluateRule\<close> answers without raising: the operand of \<open>between\<close> is not
  \<open>undefined\<close>, and the operand of \<open>in\<close> is an array or a string. \<open>rules_answer\<close> says it
  of every rule of every configured persona.
\<close>

definition rule_answers :: "rule \<Rightarrow> bool" where
  "rule_answers r =
     (if operator r = ''between'' then rl_value r \<noteq> VUndefined
      else if operator r = ''in'' then has_includes (rl_value r)
      else True)"

definition rules_answer :: "persona_analyzer \<Rightarrow> bool" where
  "rules_answer pa = list_all (\<lambda>p. list_all rule_answers (p_rules p)) (cfg_personas pa)"

text \<open>
  The persona \<open>power_user\<close> is configured, and whatever is configured under that id has
  the three rules that the constructor gives it.
\<close>

definition has_power_user :: "persona_analyzer \<Rightarrow> bool" where
  "has_power_user pa =
     (list_ex (\<lambda>p. p_id p = ''power_user'') (cfg_personas pa)
      \<and> list_all (\<lambda>p. if p_id p = ''power_user'' then Some (p_rules p) = pc_rules power_user_config else True)
            (cfg_personas pa))"

text \<open>The agreement of the two records of membership, as C9 states it.\<close>

definition memberships_agree :: "persona_analyzer \<Rightarrow> bool" where
  "memberships_agree pa =
     (\<forall>uid u. map_of (users pa) uid = Some u \<longrightarrow>
        (\<forall>p\<in>set (cfg_personas pa).
           (p_id p \<in> as_id ` set (personas u))
           = (uid \<in> set (seg_users (the (map_of (segments pa) (p_id p)))))))"

text \<open>
  While the personas of one user are assigned, the assignments in hand and the segments in
  hand agree about that user.
\<close>

definition agree_on :: "string \<Rightarrow> assigning \<Rightarrow> bool" where
  "agree_on uid st = (\<forall>k. has_segment (segs st) k \<longrightarrow>
       (k \<in> as_id ` set (user_personas st)) = is_member (segs st) k uid)"

text \<open>The step in which the ok response to a request of the tracker is handled.\<close>

definition is_ok_response :: "tr_action \<Rightarrow> bool" where
  "is_ok_response a = (case a of Respond i r \<Rightarrow> r = ResponseOk | _ \<Rightarrow> False)"

text \<open>
  The order of the network entries: every events request comes after the end of a session
  call and carries the session id in force at that point; every end of a session call
  comes after a session request.
\<close>

definition is_request :: "net_entry \<Rightarrow> bool" where
  "is_request e = (case e of SessionRequest a \<Rightarrow> True | _ \<Rightarrow> False)"

definition ordered :: "string \<Rightarrow> net_entry list \<Rightarrow> bool" where
  "ordered sid0 entries =
     ((\<forall>pre s es b post. entries = pre @ EventsRequest s es b # post \<longrightarrow>
          (\<exists>e\<in>set pre. is_settled e) \<and> s = adopted_id sid0 pre)
      \<and> (\<forall>pre i post. entries = pre @ SessionSettled i # post \<longrightarrow> (\<exists>e\<in>set pre. is_request e)))"

definition is_await_session :: "task \<Rightarrow> bool" where
  "is_await_session t = (case t of AwaitSession b \<Rightarrow> True | _ \<Rightarrow> False)"

definition is_after_ensure :: "task \<Rightarrow> bool" where
  "is_after_ensure t = (case t of AfterEnsure b \<Rightarrow> True | _ \<Rightarrow> False)"

definition sa_inv :: "string \<Rightarrow> aworld \<Rightarrow> bool" where
  "sa_inv sid0 w =
     (sa_sessionId (an w) = adopted_id sid0 (net w)
      \<and> (sessionCreated (an w) \<longrightarrow> (\<exists>e\<in>set (net w). is_settled e))
      \<and> (\<forall>t\<in>set (tasks w). is_after_ensure t \<longrightarrow> (\<exists>e\<in>set (net w). is_settled e))
      \<and> (\<forall>t\<in>set (tasks w). is_await_session t \<longrightarrow> (\<exists>e\<in>set (net w). is_request e))
      \<and> ordered sid0 (net w))"

section \<open>Properties of the FunnelAnalyzer\<close>

subsection \<open>Strict in-order matching\<close>

lemma processStepCompletion_skip:
  "currentStep (fst ss) + 1 < int k \<Longrightarrow> processStepCompletion fn dfn k ev ss = Returns ss"
  by (simp add: processStepCompletion_def Let_def)

lemma processStepCompletion_rise:
  assumes "currentStep (fst ss) < currentStep (fst (state_of (processStepCompletion fn dfn k ev ss)))"
  shows "int k = currentStep (fst ss) + 1
         \<and> currentStep (fst (state_of (processStepCompletion fn dfn k ev ss))) = currentStep (fst ss) + 1"
  using assms
  by (auto simp: processStepCompletion_def Let_def split: if_splits sum.splits)

lemma check_steps_skip:
  "(\<forall>i<length sts. eventMatchesStep rx ev (sts ! i) = Inr True \<longrightarrow> currentStep (fst ss) + 1 < int (k + i))
   \<Longrightarrow> state_of (check_steps rx fn dfn ev k sts ss) = ss"
proof (induction sts arbitrary: k)
  case Nil
  then show ?case by simp
next
  case (Cons st sts)
  have later: "\<forall>i<length sts. eventMatchesStep rx ev (sts ! i) = Inr True
                 \<longrightarrow> currentStep (fst ss) + 1 < int (Suc k + i)"
    using Cons.prems by fastforce
  show ?case
  proof (cases "eventMatchesStep rx ev st")
    case (Inl e)
    then show ?thesis by simp
  next
    case (Inr b)
    show ?thesis
    proof (cases b)
      case True
      with Inr Cons.prems have "currentStep (fst ss) + 1 < int k" by fastforce
      then have "processStepCompletion fn dfn k ev ss = Returns ss"
        by (rule processStepCompletion_skip)
      with Inr True Cons.IH[OF later] show ?thesis by simp
    next
      case False
      with Inr Cons.IH[OF later] show ?thesis by simp
    qed
  qed
qed

lemma checkFunnelStep_skip:
  assumes fd: "map_of (funnelData a) (f_id fn) = Some fd"
    and skip: "\<forall>i<length (f_steps fn). eventMatchesStep rx ev (f_steps fn ! i) = Inr True
                 \<longrightarrow> currentStep (session_of fd ev) + 1 < int i"
  shows "\<exists>fd'. map_of (funnelData (state_of (checkFunnelStep rx fn ev a))) (f_id fn) = Some fd'
           \<and> fd_stats fd' = fd_stats fd
           \<and> map_of (fd_sessions fd') (ev_sessionId ev)
             = Some ((session_of fd ev)\<lparr>se_events := se_events (session_of fd ev) @ [ev]\<rparr>)"
proof -
  let ?s1 = "(session_of fd ev)\<lparr>se_events := se_events (session_of fd ev) @ [ev]\<rparr>"
  have "state_of (check_steps rx fn (fd_funnel fd) ev 0 (f_steps fn) (?s1, fd_stats fd)) = (?s1, fd_stats fd)"
    using skip by (intro check_steps_skip) simp
  then show ?thesis
    using fd
    by (cases "check_steps rx fn (fd_funnel fd) ev 0 (f_steps fn) (?s1, fd_stats fd)")
       (simp_all add: checkFunnelStep_def Let_def store_session_def update_conv')
qed

text \<open>
  C1 (as the code has it). One call of \<open>processStepCompletion\<close> for a step beyond
  \<open>currentStep + 1\<close> changes neither the session nor the statistics; when a call raises
  \<open>currentStep\<close>, the step it was called for is \<open>currentStep + 1\<close> and the new value is
  exactly that. An event all of whose matching steps lie beyond \<open>currentStep + 1\<close> leaves
  the statistics of the funnel and the session as they were, but for the event being
  recorded in the session's event list.
\<close>

theorem funnel_no_skip:
  "(currentStep (fst ss) + 1 < int k \<longrightarrow> processStepCompletion fn dfn k ev ss = Returns ss)
   \<and> (currentStep (fst ss) < currentStep (fst (state_of (processStepCompletion fn dfn k ev ss)))
        \<longrightarrow> int k = currentStep (fst ss) + 1
            \<and> currentStep (fst (state_of (processStepCompletion fn dfn k ev ss))) = currentStep (fst ss) + 1)
   \<and> (map_of (funnelData a) (f_id fn) = Some fd
        \<and> (\<forall>i<length (f_steps fn). eventMatchesStep rx ev (f_steps fn ! i) = Inr True
               \<longrightarrow> currentStep (session_of fd ev) + 1 < int i)
        \<longrightarrow> (\<exists>fd'. map_of (funnelData (state_of (checkFunnelStep rx fn ev a))) (f_id fn) = Some fd'
               \<and> fd_stats fd' = fd_stats fd
               \<and> map_of (fd_sessions fd') (ev_sessionId ev)
                   = Some ((session_of fd ev)\<lparr>se_events := se_events (session_of fd ev) @ [ev]\<rparr>)))"
  using processStepCompletion_skip[of ss k fn dfn ev] processStepCompletion_rise[of ss fn dfn k ev]
        checkFunnelStep_skip[of a fn fd rx ev]
  by blast

text \<open>
  In the signup funnel of three steps, without backtracking, the event of step 2 arrives
  first: the session stays at \<open>-1\<close>. The event of step 0 moves a fresh session to \<open>0\<close>.
\<close>

theorem funnel_no_skip_witness:
  "map_of (funnelData signup_analyzer) (f_id signup_funnel) = Some signup_entry
   \<and> length (f_steps signup_funnel) = 3
   \<and> eventMatchesStep example_engine done_event (f_steps signup_funnel ! 0) = Inr False
   \<and> eventMatchesStep example_engine done_event (f_steps signup_funnel ! 1) = Inr False
   \<and> eventMatchesStep example_engine done_event (f_steps signup_funnel ! 2) = Inr True
   \<and> currentStep (session_of signup_entry done_event) = - 1
   \<and> \<not> allowBacktrack (f_options signup_funnel)
   \<and> currentStep (the (map_of (fd_sessions (the (map_of (funnelData
         (state_of (checkFunnelStep example_engine signup_funnel done_event signup_analyzer)))
         ''signup''))) ''s1'')) = - 1
   \<and> processStepCompletion signup_funnel signup_funnel 2 done_event
         (new_session done_event, fd_stats signup_entry)
       = Returns (new_session done_event, fd_stats signup_entry)
   \<and> currentStep (fst (state_of (processStepCompletion signup_funnel signup_funnel 0 visit_event
         (new_session visit_event, fd_stats signup_entry)))) = 0"
proof -
  have entry: "map_of (funnelData signup_analyzer) (f_id signup_funnel) = Some signup_entry"
    by code_simp
  have fid: "f_id signup_funnel = ''signup''" and sid: "ev_sessionId done_event = ''s1''"
    by code_simp+
  have len: "length (f_steps signup_funnel) = 3"
    by code_simp
  have m0: "eventMatchesStep example_engine done_event (f_steps signup_funnel ! 0) = Inr False"
    and m1: "eventMatchesStep example_engine done_event (f_steps signup_funnel ! 1) = Inr False"
    and m2: "eventMatchesStep example_engine done_event (f_steps signup_funnel ! 2) = Inr True"
    by code_simp+
  have cur: "currentStep (session_of signup_entry done_event) = - 1"
    by code_simp
  have nb: "\<not> allowBacktrack (f_options signup_funnel)"
    by code_simp
  have beyond: "\<forall>i<length (f_steps signup_funnel).
          eventMatchesStep example_engine done_event (f_steps signup_funnel ! i) = Inr True
          \<longrightarrow> currentStep (session_of signup_entry done_event) + 1 < int i"
  proof (intro allI impI)
    fix i
    assume "i < length (f_steps signup_funnel)"
      and "eventMatchesStep example_engine done_event (f_steps signup_funnel ! i) = Inr True"
    then have "i = 2"
      using len m0 m1 by (cases "i = 0"; cases "i = 1") auto
    then show "currentStep (session_of signup_entry done_event) + 1 < int i"
      unfolding cur by simp
  qed
  have c1: "currentStep (fst (new_session done_event, fd_stats signup_entry)) + 1 < int 2"
    by code_simp
  have c2: "currentStep (fst (new_session visit_event, fd_stats signup_entry))
            < currentStep (fst (state_of (processStepCompletion signup_funnel signup_funnel 0 visit_event
                (new_session visit_event, fd_stats signup_entry))))"
    by code_simp
  have c3: "currentStep (fst (new_session visit_event, fd_stats signup_entry)) + 1 = 0"
    by code_simp
  note thm1 = funnel_no_skip[of "(new_session done_event, fd_stats signup_entry)" 2
      signup_funnel signup_funnel done_event signup_analyzer signup_entry example_engine]
  note thm2 = funnel_no_skip[of "(new_session visit_event, fd_stats signup_entry)" 0
      signup_funnel signup_funnel visit_event signup_analyzer signup_entry example_engine]
  from thm1[THEN conjunct2, THEN conjunct2, rule_format, OF conjI, OF entry beyond]
  obtain fd' where
    fd': "map_of (funnelData (state_of (checkFunnelStep example_engine signup_funnel done_event signup_analyzer)))
            (f_id signup_funnel) = Some fd'"
    and s': "map_of (fd_sessions fd') (ev_sessionId done_event)
              = Some ((session_of signup_entry done_event)
                       \<lparr>se_events := se_events (session_of signup_entry done_event) @ [done_event]\<rparr>)"
    by blast
  have stay: "currentStep (the (map_of (fd_sessions (the (map_of (funnelData
         (state_of (checkFunnelStep example_engine signup_funnel done_event signup_analyzer)))
         ''signup''))) ''s1'')) = - 1"
    using fd' s' cur unfolding fid sid by simp
  have skip: "processStepCompletion signup_funnel signup_funnel 2 done_event
         (new_session done_event, fd_stats signup_entry)
       = Returns (new_session done_event, fd_stats signup_entry)"
    by (rule thm1[THEN conjunct1, rule_format, OF c1])
  have rise: "currentStep (fst (state_of (processStepCompletion signup_funnel signup_funnel 0 visit_event
         (new_session visit_event, fd_stats signup_entry)))) = 0"
    using thm2[THEN conjunct2, THEN conjunct1, rule_format, OF c2, THEN conjunct2] c3 by (simp only:)
  show ?thesis
    by (intro conjI entry len m0 m1 m2 cur nb stay skip rise)
qed

text \<open>
  C1 as stated fails at the level of events. In the checkout funnel a click on the buy
  button matches step 2 while the session is at \<open>-1\<close>; it also matches step 0 (any click),
  so the same event advances the session to step 0 and counts it.
\<close>

theorem skip_ahead_event_counterexample:
  "eventMatchesStep example_engine buy_click (f_steps (hd (cfg_funnels checkout_analyzer)) ! 2) = Inr True
   \<and> currentStep (session_of (the (map_of (funnelData checkout_analyzer) ''checkout'')) buy_click) + 1 < 2
   \<and> currentStep (the (map_of (fd_sessions (the (map_of (funnelData
         (state_of (addEvent example_engine ''s1'' ''u1'' buy_click checkout_analyzer))) ''checkout''))) ''s1'')) = 0
   \<and> length (completedSteps (the (map_of (fd_sessions (the (map_of (funnelData
         (state_of (addEvent example_engine ''s1'' ''u1'' buy_click checkout_analyzer))) ''checkout''))) ''s1''))) = 1
   \<and> reached (st_steps (fd_stats (the (map_of (funnelData checkout_analyzer) ''checkout''))) ! 0) = 0
   \<and> reached (st_steps (fd_stats (the (map_of (funnelData
         (state_of (addEvent example_engine ''s1'' ''u1'' buy_click checkout_analyzer))) ''checkout''))) ! 0) = 1"
  by (intro conjI; code_simp)

subsection \<open>The funnel shape\<close>

lemma count_update:
  "distinct (map fst al) \<Longrightarrow>
   length (filter P (AList.update k v al))
   = (if P (k, v) then 1 else 0) + length (filter P (filter (\<lambda>p. fst p \<noteq> k) al))"
proof (induction al)
  case Nil
  then show ?case by simp
next
  case (Cons p al)
  show ?case
  proof (cases "fst p = k")
    case True
    with Cons.prems have "k \<notin> fst ` set al" by auto
    then have "filter (\<lambda>p. fst p \<noteq> k) al = al"
      by (auto simp: filter_id_conv)
    with True show ?thesis by simp
  next
    case False
    with Cons show ?thesis by simp
  qed
qed

lemma count_split:
  assumes "distinct (map fst al)"
  shows "length (filter P al)
         = (case map_of al k of None \<Rightarrow> 0 | Some v \<Rightarrow> if P (k, v) then 1 else 0)
           + length (filter P (filter (\<lambda>p. fst p \<noteq> k) al))"
proof (cases "map_of al k")
  case None
  then have "k \<notin> fst ` set al" by (simp add: map_of_eq_None_iff)
  then have "filter (\<lambda>p. fst p \<noteq> k) al = al"
    by (auto simp: filter_id_conv)
  with None show ?thesis by simp
next
  case (Some v)
  then have "AList.update k v al = al" by (rule update_triv)
  with count_update[OF assms, of P k v] Some show ?thesis by simp
qed

lemma updateFunnelStats_reached:
  assumes "k < length (st_steps stats)"
  shows "\<exists>stats'. updateFunnelStats dfn k stats = Inr stats'
           \<and> length (st_steps stats') = length (st_steps stats)
           \<and> (\<forall>j<length (st_steps stats).
                 reached (st_steps stats' ! j) = reached (st_steps stats ! j) + (if j = k then 1 else 0))"
  using assms
  by (auto simp: updateFunnelStats_def Let_def nth_list_update)

lemma processStepCompletion_counted:
  assumes nb: "\<not> allowBacktrack (f_options fn)"
    and k: "k < length (st_steps (snd ss))"
    and c: "counted ss others"
  shows "counted (state_of (processStepCompletion fn dfn k ev ss)) others
         \<and> length (st_steps (snd (state_of (processStepCompletion fn dfn k ev ss)))) = length (st_steps (snd ss))"
proof (cases "int k = currentStep (fst ss) + 1")
  case True
  from updateFunnelStats_reached[OF k, of dfn] obtain stats' where
    u: "updateFunnelStats dfn k (snd ss) = Inr stats'"
    and l: "length (st_steps stats') = length (st_steps (snd ss))"
    and r: "\<forall>j<length (st_steps (snd ss)).
                 reached (st_steps stats' ! j) = reached (st_steps (snd ss) ! j) + (if j = k then 1 else 0)"
    by blast
  have "counted (state_of (processStepCompletion fn dfn k ev ss)) others"
    using True u l r c
    by (auto simp: processStepCompletion_def Let_def counted_def)
  moreover have "length (st_steps (snd (state_of (processStepCompletion fn dfn k ev ss)))) = length (st_steps (snd ss))"
    using True u l by (auto simp: processStepCompletion_def Let_def)
  ultimately show ?thesis by blast
next
  case False
  with nb have "processStepCompletion fn dfn k ev ss = Returns ss"
    by (simp add: processStepCompletion_def Let_def)
  with c show ?thesis by simp
qed

lemma check_steps_counted:
  assumes nb: "\<not> allowBacktrack (f_options fn)"
  shows "k + length sts \<le> length (st_steps (snd ss)) \<Longrightarrow> counted ss others \<Longrightarrow>
         counted (state_of (check_steps rx fn dfn ev k sts ss)) others
         \<and> length (st_steps (snd (state_of (check_steps rx fn dfn ev k sts ss)))) = length (st_steps (snd ss))"
proof (induction sts arbitrary: k ss)
  case Nil
  then show ?case by simp
next
  case (Cons st sts)
  show ?case
  proof (cases "eventMatchesStep rx ev st")
    case (Inl e)
    with Cons.prems show ?thesis by simp
  next
    case (Inr b)
    show ?thesis
    proof (cases b)
      case False
      with Inr Cons.IH[of "Suc k" ss] Cons.prems show ?thesis by simp
    next
      case True
      let ?r = "processStepCompletion fn dfn k ev ss"
      have k: "k < length (st_steps (snd ss))" using Cons.prems by simp
      from processStepCompletion_counted[OF nb k Cons.prems(2), of dfn ev]
      have c': "counted (state_of ?r) others"
        and l': "length (st_steps (snd (state_of ?r))) = length (st_steps (snd ss))"
        by blast+
      show ?thesis
      proof (cases ?r)
        case (Returns ss')
        with c' l' have "counted ss' others" "Suc k + length sts \<le> length (st_steps (snd ss'))"
          using Cons.prems by simp_all
        from Cons.IH[OF this(2) this(1)] Returns l' Inr True show ?thesis by simp
      next
        case (Throws e ss')
        with c' l' Inr True show ?thesis by simp
      qed
    qed
  qed
qed


lemma store_session_ok:
  assumes ok: "fd_ok fd"
  shows "fd_ok (store_session fd (ev_sessionId ev)
           (state_of (check_steps rx (fd_funnel fd) (fd_funnel fd) ev 0 (f_steps (fd_funnel fd))
              ((session_of fd ev)\<lparr>se_events := se_events (session_of fd ev) @ [ev]\<rparr>, fd_stats fd))))"
proof (cases "allowBacktrack (f_options (fd_funnel fd))")
  case True
  then show ?thesis by (simp add: fd_ok_def store_session_def)
next
  case nb: False
  let ?sid = "ev_sessionId ev"
  let ?others = "filter (\<lambda>p. fst p \<noteq> ?sid) (fd_sessions fd)"
  let ?s1 = "(session_of fd ev)\<lparr>se_events := se_events (session_of fd ev) @ [ev]\<rparr>"
  let ?r = "state_of (check_steps rx (fd_funnel fd) (fd_funnel fd) ev 0 (f_steps (fd_funnel fd)) (?s1, fd_stats fd))"
  from ok nb have len: "length (st_steps (fd_stats fd)) = length (f_steps (fd_funnel fd))"
    and dist: "distinct (map fst (fd_sessions fd))"
    and cnt: "\<forall>k<length (st_steps (fd_stats fd)).
              reached (st_steps (fd_stats fd) ! k) = length (filter (at_least k) (fd_sessions fd))"
    by (simp_all add: fd_ok_def)
  have start: "counted (?s1, fd_stats fd) ?others"
    unfolding counted_def
  proof (intro allI impI)
    fix k
    assume "k < length (st_steps (snd (?s1, fd_stats fd)))"
    then have "reached (st_steps (fd_stats fd) ! k) = length (filter (at_least k) (fd_sessions fd))"
      using cnt by simp
    also have "\<dots> = (case map_of (fd_sessions fd) ?sid of None \<Rightarrow> 0
                       | Some v \<Rightarrow> if at_least k (?sid, v) then 1 else 0)
                     + length (filter (at_least k) ?others)"
      by (rule count_split[OF dist])
    also have "(case map_of (fd_sessions fd) ?sid of None \<Rightarrow> 0
                       | Some v \<Rightarrow> if at_least k (?sid, v) then 1 else 0)
               = (if int k \<le> currentStep (fst (?s1, fd_stats fd)) then 1 else 0)"
      by (simp add: session_of_def new_session_def at_least_def split: option.splits)
    finally show "reached (st_steps (snd (?s1, fd_stats fd)) ! k)
        = (if int k \<le> currentStep (fst (?s1, fd_stats fd)) then 1 else 0)
          + length (filter (at_least k) ?others)"
      by simp
  qed
  have "0 + length (f_steps (fd_funnel fd)) \<le> length (st_steps (snd (?s1, fd_stats fd)))"
    using len by simp
  from check_steps_counted[OF nb this start, of rx "fd_funnel fd" ev]
  have c: "counted ?r ?others" and l: "length (st_steps (snd ?r)) = length (st_steps (fd_stats fd))"
    by simp_all
  have "\<forall>k<length (st_steps (snd ?r)).
          reached (st_steps (snd ?r) ! k)
          = length (filter (at_least k) (AList.update ?sid (fst ?r) (fd_sessions fd)))"
  proof (intro allI impI)
    fix k
    assume "k < length (st_steps (snd ?r))"
    with c have "reached (st_steps (snd ?r) ! k)
        = (if int k \<le> currentStep (fst ?r) then 1 else 0) + length (filter (at_least k) ?others)"
      by (simp add: counted_def)
    also have "\<dots> = length (filter (at_least k) (AList.update ?sid (fst ?r) (fd_sessions fd)))"
      by (simp add: count_update[OF dist] at_least_def)
    finally show "reached (st_steps (snd ?r) ! k)
          = length (filter (at_least k) (AList.update ?sid (fst ?r) (fd_sessions fd)))" .
  qed
  with l len dist show ?thesis
    by (simp add: fd_ok_def store_session_def distinct_update)
qed

lemma checkFunnelStep_entries_ok:
  assumes ok: "entries_ok fns a" and mem: "fn \<in> set fns"
  shows "entries_ok fns (state_of (checkFunnelStep rx fn ev a))
         \<and> cfg_funnels (state_of (checkFunnelStep rx fn ev a)) = cfg_funnels a"
proof -
  from ok mem obtain fd where fd: "map_of (funnelData a) (f_id fn) = Some fd" and f: "fd_funnel fd = fn"
    by (auto simp: entries_ok_def)
  from ok fd have fok: "fd_ok fd" by (auto simp: entries_ok_def)
  let ?s1 = "(session_of fd ev)\<lparr>se_events := se_events (session_of fd ev) @ [ev]\<rparr>"
  let ?c = "check_steps rx fn (fd_funnel fd) ev 0 (f_steps fn) (?s1, fd_stats fd)"
  let ?fd' = "store_session fd (ev_sessionId ev) (state_of ?c)"
  have st: "state_of (checkFunnelStep rx fn ev a)
            = a\<lparr>funnelData := AList.update (f_id fn) ?fd' (funnelData a)\<rparr>"
    using fd by (cases ?c) (simp_all add: checkFunnelStep_def Let_def)
  have fok': "fd_ok ?fd'"
    using store_session_ok[OF fok, of ev rx] f by simp
  have ff': "fd_funnel ?fd' = fn"
    using f by (simp add: store_session_def)
  have "entries_ok fns (a\<lparr>funnelData := AList.update (f_id fn) ?fd' (funnelData a)\<rparr>)"
    unfolding entries_ok_def
  proof (intro conjI ballI allI impI)
    fix g
    assume "g \<in> set fns"
    with ok obtain gd where gd: "map_of (funnelData a) (f_id g) = Some gd" and g: "fd_funnel gd = g"
      by (auto simp: entries_ok_def)
    show "\<exists>fd. map_of (funnelData (a\<lparr>funnelData := AList.update (f_id fn) ?fd' (funnelData a)\<rparr>)) (f_id g) = Some fd
            \<and> fd_funnel fd = g"
    proof (cases "f_id g = f_id fn")
      case True
      with gd fd g f have "g = fn" by simp
      with ff' show ?thesis by (simp add: update_conv')
    next
      case False
      with gd g show ?thesis by (simp add: update_conv')
    qed
  next
    fix fid gd
    assume "map_of (funnelData (a\<lparr>funnelData := AList.update (f_id fn) ?fd' (funnelData a)\<rparr>)) fid = Some gd"
    then show "fd_ok gd"
      using fok' ok by (auto simp: update_conv' entries_ok_def split: if_splits)
  qed
  with st show ?thesis by simp
qed

lemma analyze_funnels_entries_ok:
  "entries_ok fns a \<Longrightarrow> set gs \<subseteq> set fns \<Longrightarrow>
   entries_ok fns (state_of (analyze_funnels rx gs ev a))
   \<and> cfg_funnels (state_of (analyze_funnels rx gs ev a)) = cfg_funnels a"
proof (induction gs arbitrary: a)
  case Nil
  then show ?case by simp
next
  case (Cons g gs)
  from Cons.prems have mem: "g \<in> set fns" and rest: "set gs \<subseteq> set fns" by simp_all
  from checkFunnelStep_entries_ok[OF Cons.prems(1) mem, of rx ev]
  have ok': "entries_ok fns (state_of (checkFunnelStep rx g ev a))"
    and cfg': "cfg_funnels (state_of (checkFunnelStep rx g ev a)) = cfg_funnels a"
    by blast+
  show ?case
  proof (cases "checkFunnelStep rx g ev a")
    case (Returns a')
    with ok' cfg' Cons.IH[of a', OF _ rest] show ?thesis by simp
  next
    case (Throws e a')
    with ok' cfg' show ?thesis by simp
  qed
qed

lemma entries_ok_events: "entries_ok fns (a\<lparr>an_events := es\<rparr>) = entries_ok fns a"
  by (simp add: entries_ok_def)

lemma addEvent_inv:
  assumes "an_inv a"
  shows "an_inv (state_of (addEvent rx sid uid ev a))
         \<and> cfg_funnels (state_of (addEvent rx sid uid ev a)) = cfg_funnels a"
  using assms analyze_funnels_entries_ok[of "cfg_funnels a" "a\<lparr>an_events := an_events a @ [ev\<lparr>ev_sessionId := sid, ev_userId := uid\<rparr>]\<rparr>"
      "cfg_funnels a" rx "ev\<lparr>ev_sessionId := sid, ev_userId := uid\<rparr>"]
  by (simp add: an_inv_def addEvent_def analyzeEvent_def Let_def entries_ok_events)

lemma fd_ok_fresh:
  "fd_ok \<lparr>fd_funnel = fn, fd_sessions = [], fd_stats = initializeFunnelStats (length (f_steps fn))\<rparr>"
  by (simp add: fd_ok_def initializeFunnelStats_def)

lemma defineFunnel_inv:
  assumes inv: "an_inv a" and fresh: "funnelId \<notin> f_id ` set (cfg_funnels a)"
  shows "an_inv (snd (defineFunnel funnelId steps options a))
         \<and> f_id ` set (cfg_funnels (snd (defineFunnel funnelId steps options a)))
           = insert funnelId (f_id ` set (cfg_funnels a))"
proof -
  obtain fn where fn: "fn = fst (defineFunnel funnelId steps options a)" by simp
  have id: "f_id fn = funnelId" using fn by (simp add: defineFunnel_def Let_def)
  let ?fd = "\<lparr>fd_funnel = fn, fd_sessions = [], fd_stats = initializeFunnelStats (length (f_steps fn))\<rparr>"
  have a': "snd (defineFunnel funnelId steps options a)
            = a\<lparr>cfg_funnels := cfg_funnels a @ [fn], funnelData := AList.update funnelId ?fd (funnelData a)\<rparr>"
    using fn by (simp add: defineFunnel_def Let_def)
  have "an_inv (a\<lparr>cfg_funnels := cfg_funnels a @ [fn], funnelData := AList.update funnelId ?fd (funnelData a)\<rparr>)"
    unfolding an_inv_def entries_ok_def
  proof (intro conjI ballI allI impI)
    fix g
    assume "g \<in> set (cfg_funnels (a\<lparr>cfg_funnels := cfg_funnels a @ [fn], funnelData := AList.update funnelId ?fd (funnelData a)\<rparr>))"
    then consider "g = fn" | "g \<in> set (cfg_funnels a)" by auto
    then show "\<exists>fd. map_of (funnelData (a\<lparr>cfg_funnels := cfg_funnels a @ [fn], funnelData := AList.update funnelId ?fd (funnelData a)\<rparr>)) (f_id g) = Some fd
            \<and> fd_funnel fd = g"
    proof cases
      case 1
      with id show ?thesis by (simp add: update_conv')
    next
      case 2
      with fresh have "f_id g \<noteq> funnelId" by auto
      with 2 inv show ?thesis by (auto simp: update_conv' an_inv_def entries_ok_def)
    qed
  next
    fix fid gd
    assume "map_of (funnelData (a\<lparr>cfg_funnels := cfg_funnels a @ [fn], funnelData := AList.update funnelId ?fd (funnelData a)\<rparr>)) fid = Some gd"
    then show "fd_ok gd"
      using inv fd_ok_fresh[of fn] by (auto simp: update_conv' an_inv_def entries_ok_def split: if_splits)
  qed
  moreover have "f_id ` set (cfg_funnels (a\<lparr>cfg_funnels := cfg_funnels a @ [fn], funnelData := AList.update funnelId ?fd (funnelData a)\<rparr>))
           = insert funnelId (f_id ` set (cfg_funnels a))"
    using id by auto
  ultimately show ?thesis using a' by simp
qed

lemma run_calls_inv:
  "an_inv a \<Longrightarrow> distinct (defined_ids cs) \<Longrightarrow> set (defined_ids cs) \<inter> f_id ` set (cfg_funnels a) = {}
   \<Longrightarrow> an_inv (run_calls rx cs a)"
proof (induction cs arbitrary: a)
  case Nil
  then show ?case by simp
next
  case (Cons c cs)
  show ?case
  proof (cases c)
    case (DefineFunnel funnelId steps options)
    with Cons.prems have fresh: "funnelId \<notin> f_id ` set (cfg_funnels a)" by auto
    from defineFunnel_inv[OF Cons.prems(1) fresh, of steps options]
    have inv': "an_inv (snd (defineFunnel funnelId steps options a))"
      and ids: "f_id ` set (cfg_funnels (snd (defineFunnel funnelId steps options a)))
           = insert funnelId (f_id ` set (cfg_funnels a))"
      by blast+
    have "distinct (defined_ids cs)"
      and "set (defined_ids cs) \<inter> f_id ` set (cfg_funnels (snd (defineFunnel funnelId steps options a))) = {}"
      using Cons.prems DefineFunnel ids by auto
    from Cons.IH[OF inv' this] DefineFunnel show ?thesis by simp
  next
    case (AddEvent sid uid ev)
    from addEvent_inv[OF Cons.prems(1), of rx sid uid ev]
    have inv': "an_inv (state_of (addEvent rx sid uid ev a))"
      and cfg: "cfg_funnels (state_of (addEvent rx sid uid ev a)) = cfg_funnels a"
      by blast+
    have "distinct (defined_ids cs)"
      and "set (defined_ids cs) \<inter> f_id ` set (cfg_funnels (state_of (addEvent rx sid uid ev a))) = {}"
      using Cons.prems AddEvent cfg by auto
    from Cons.IH[OF inv' this] AddEvent show ?thesis by simp
  qed
qed

lemma fd_ok_monotone:
  assumes "fd_ok fd" and "\<not> allowBacktrack (f_options (fd_funnel fd))"
    and "i + 1 < length (st_steps (fd_stats fd))"
  shows "reached (st_steps (fd_stats fd) ! (i + 1)) \<le> reached (st_steps (fd_stats fd) ! i)"
proof -
  have "length (filter (at_least (i + 1)) (fd_sessions fd)) \<le> length (filter (at_least i) (fd_sessions fd))"
  proof -
    have "filter (at_least (i + 1)) (fd_sessions fd) = filter (at_least (i + 1)) (filter (at_least i) (fd_sessions fd))"
      by (auto simp: at_least_def intro: filter_cong)
    then show ?thesis
      by (metis length_filter_le)
  qed
  with assms show ?thesis by (simp add: fd_ok_def)
qed

text \<open>
  C5 (as the code has it). Take any sequence of \<open>defineFunnel\<close> calls with distinct
  ids and \<open>addEvent\<close> calls on a new analyzer. For a funnel defined without
  backtracking, the number of sessions that reached a step is at most the number that
  reached the step before it.
\<close>

theorem reached_monotone_without_backtracking:
  assumes "distinct (defined_ids cs)"
    and "map_of (funnelData (run_calls rx cs new_analyzer)) fid = Some fd"
    and "\<not> allowBacktrack (f_options (fd_funnel fd))"
    and "i + 1 < length (st_steps (fd_stats fd))"
  shows "reached (st_steps (fd_stats fd) ! (i + 1)) \<le> reached (st_steps (fd_stats fd) ! i)"
proof -
  have "an_inv new_analyzer"
    by (simp add: an_inv_def entries_ok_def new_analyzer_def)
  then have "an_inv (run_calls rx cs new_analyzer)"
    using assms(1) by (rule run_calls_inv) (simp add: new_analyzer_def)
  with assms(2) have "fd_ok fd"
    by (auto simp: an_inv_def entries_ok_def)
  then show ?thesis using assms(3,4) by (rule fd_ok_monotone)
qed

text \<open>
  Two sessions enter the signup funnel and one of them goes on to the second step.
\<close>

theorem reached_monotone_without_backtracking_witness:
  "distinct (defined_ids signup_calls)
   \<and> map_of (funnelData (run_calls example_engine signup_calls new_analyzer)) ''signup'' = Some signup_result
   \<and> \<not> allowBacktrack (f_options (fd_funnel signup_result))
   \<and> 0 + 1 < length (st_steps (fd_stats signup_result))
   \<and> reached (st_steps (fd_stats signup_result) ! 0) = 2
   \<and> reached (st_steps (fd_stats signup_result) ! (0 + 1)) \<le> reached (st_steps (fd_stats signup_result) ! 0)"
proof -
  have h1: "distinct (defined_ids signup_calls)"
    by code_simp
  have h2: "map_of (funnelData (run_calls example_engine signup_calls new_analyzer)) ''signup'' = Some signup_result"
    by code_simp
  have h3: "\<not> allowBacktrack (f_options (fd_funnel signup_result))"
    by code_simp
  have h4: "0 + 1 < length (st_steps (fd_stats signup_result))"
    by code_simp
  have v: "reached (st_steps (fd_stats signup_result) ! 0) = 2"
    by code_simp
  note c = reached_monotone_without_backtracking[OF h1 h2 h3 h4]
  show ?thesis
    by (intro conjI h1 h2 h3 h4 v c)
qed

text \<open>
  C5 as stated fails with backtracking. One session of a funnel that allows backtracking
  does step 0, step 1, goes back to step 0 and does step 1 again: step 1 is counted
  twice, step 0 once.
\<close>

theorem reached_monotone_counterexample:
  "allowBacktrack (f_options (fd_funnel backtrack_result))
   \<and> reached (st_steps (fd_stats backtrack_result) ! 0) = 1
   \<and> reached (st_steps (fd_stats backtrack_result) ! 1) = 2
   \<and> \<not> reached (st_steps (fd_stats backtrack_result) ! 1) \<le> reached (st_steps (fd_stats backtrack_result) ! 0)"
  by (intro conjI; code_simp)

subsection \<open>A malformed URL pattern\<close>

lemma check_steps_raises:
  "st \<in> set sts \<Longrightarrow> eventMatchesStep rx ev st = Inl e \<Longrightarrow> \<not> returns (check_steps rx fn dfn ev k sts ss)"
proof (induction sts arbitrary: k ss)
  case Nil
  then show ?case by simp
next
  case (Cons s sts)
  show ?case
  proof (cases "s = st")
    case True
    with Cons.prems show ?thesis by simp
  next
    case False
    with Cons.prems have "st \<in> set sts" by simp
    from Cons.IH[OF this Cons.prems(2)] show ?thesis
      by (auto split: sum.splits bool.splits outcome.splits)
  qed
qed

lemma checkFunnelStep_raises:
  assumes "st \<in> set (f_steps fn)" and "eventMatchesStep rx ev st = Inl e"
  shows "\<not> returns (checkFunnelStep rx fn ev a)"
proof (cases "map_of (funnelData a) (f_id fn)")
  case None
  then show ?thesis by (simp add: checkFunnelStep_def)
next
  case (Some fd)
  let ?c = "check_steps rx fn (fd_funnel fd) ev 0 (f_steps fn)
              ((session_of fd ev)\<lparr>se_events := se_events (session_of fd ev) @ [ev]\<rparr>, fd_stats fd)"
  have "\<not> returns ?c" using assms by (rule check_steps_raises)
  with Some show ?thesis
    by (cases ?c) (simp_all add: checkFunnelStep_def Let_def)
qed

lemma analyze_funnels_raises:
  "fn \<in> set fns \<Longrightarrow> st \<in> set (f_steps fn) \<Longrightarrow> eventMatchesStep rx ev st = Inl e
   \<Longrightarrow> \<not> returns (analyze_funnels rx fns ev a)"
proof (induction fns arbitrary: a)
  case Nil
  then show ?case by simp
next
  case (Cons g gs)
  show ?case
  proof (cases "g = fn")
    case True
    with checkFunnelStep_raises[OF Cons.prems(2,3), of a] show ?thesis
      by (cases "checkFunnelStep rx fn ev a") simp_all
  next
    case False
    with Cons.prems have "fn \<in> set gs" by simp
    from Cons.IH[OF this Cons.prems(2,3)] show ?thesis
      by (cases "checkFunnelStep rx g ev a") simp_all
  qed
qed

lemma eventMatchesStep_stamp:
  "eventMatchesStep rx (ev\<lparr>ev_sessionId := sid, ev_userId := uid\<rparr>) st = eventMatchesStep rx ev st"
proof -
  let ?e = "ev\<lparr>ev_sessionId := sid, ev_userId := uid\<rparr>"
  have f: "ev_type ?e = ev_type ev" "ev_url ?e = ev_url ev" "ev_name ?e = ev_name ev"
    "ev_element ?e = ev_element ev"
    by simp_all
  show ?thesis
    unfolding eventMatchesStep_def f ..
qed

text \<open>
  C8 (what the code does). A step whose URL pattern contains a star is compiled to a
  regular expression each time a page view is matched against it. When the engine rejects
  the pattern, \<open>eventMatchesStep\<close> raises \<open>SyntaxError\<close> instead of answering false, and
  \<open>addEvent\<close> throws for every page view while a funnel with that step is configured.
  \<open>elementMatchesSelector\<close>, next to it, catches what its body raises and answers false.
\<close>

theorem malformed_url_pattern_raises:
  assumes "fn \<in> set (cfg_funnels a)" and "st \<in> set (f_steps fn)"
    and "truthy (step_url st)" and "CHR ''*'' \<in> set (the (step_url st))"
    and "rx (replace_stars (the (step_url st))) = None"
    and "ev_type ev = ''pageview''" and "truthy (ev_url ev)"
  shows "eventMatchesStep rx ev st = Inl SyntaxError \<and> \<not> returns (addEvent rx sid uid ev a)"
proof -
  have m: "eventMatchesStep rx ev st = Inl SyntaxError"
    using assms(3-7) by (simp add: eventMatchesStep_def urlMatches_def)
  then have "eventMatchesStep rx (ev\<lparr>ev_sessionId := sid, ev_userId := uid\<rparr>) st = Inl SyntaxError"
    by (simp add: eventMatchesStep_stamp)
  from analyze_funnels_raises[OF _ assms(2) this, of "cfg_funnels a"] assms(1)
  have "\<not> returns (addEvent rx sid uid ev a)"
    by (simp add: addEvent_def analyzeEvent_def Let_def)
  with m show ?thesis by blast
qed

text \<open>The docs funnel, whose pattern becomes \<open>/docs/(.*\<close>, and a page view.\<close>

theorem malformed_url_pattern_raises_witness:
  "docs_funnel \<in> set (cfg_funnels docs_analyzer)
   \<and> hd (f_steps docs_funnel) \<in> set (f_steps docs_funnel)
   \<and> truthy (step_url (hd (f_steps docs_funnel)))
   \<and> CHR ''*'' \<in> set (the (step_url (hd (f_steps docs_funnel))))
   \<and> example_engine (replace_stars (the (step_url (hd (f_steps docs_funnel))))) = None
   \<and> ev_type docs_view = ''pageview''
   \<and> truthy (ev_url docs_view)
   \<and> eventMatchesStep example_engine docs_view (hd (f_steps docs_funnel)) = Inl SyntaxError
   \<and> \<not> returns (addEvent example_engine ''s1'' ''u1'' docs_view docs_analyzer)"
proof -
  have h1: "docs_funnel \<in> set (cfg_funnels docs_analyzer)"
    and h2: "hd (f_steps docs_funnel) \<in> set (f_steps docs_funnel)"
    and h3: "truthy (step_url (hd (f_steps docs_funnel)))"
    and h4: "CHR ''*'' \<in> set (the (step_url (hd (f_steps docs_funnel))))"
    and h5: "example_engine (replace_stars (the (step_url (hd (f_steps docs_funnel))))) = None"
    and h6: "ev_type docs_view = ''pageview''"
    and h7: "truthy (ev_url docs_view)"
    by code_simp+
  note c = malformed_url_pattern_raises[where rx = example_engine and fn = docs_funnel
      and a = docs_analyzer and st = "hd (f_steps docs_funnel)" and ev = docs_view
      and sid = "''s1''" and uid = "''u1''", OF h1 h2 h3 h4 h5 h6 h7]
  show ?thesis
    by (intro conjI h1 h2 h3 h4 h5 h6 h7 c[THEN conjunct1] c[THEN conjunct2])
qed

section \<open>Properties of the PersonaAnalyzer\<close>

subsection \<open>The profile after an event\<close>

lemma foldl_duration: "foldl (\<lambda>acc s. acc + duration s) a xs = a + sum_list (map duration xs)"
  by (induction xs arbitrary: a) simp_all

lemma on_session_fields [simp]:
  "sessions (on_session f u) = sessions u"
  "metrics (on_session f u) = metrics u"
  "personas (on_session f u) = personas u"
  "u_id (on_session f u) = u_id u"
  "(currentSession (on_session f u) = None) = (currentSession u = None)"
  by (simp_all add: on_session_def)

lemma updatePageMetrics_fields [simp]:
  "sessions (updatePageMetrics u ev) = sessions u"
  "currentSession (updatePageMetrics u ev) = currentSession u"
  "m_totalSessions (metrics (updatePageMetrics u ev)) = m_totalSessions (metrics u)"
  "personas (updatePageMetrics u ev) = personas u"
  "u_id (updatePageMetrics u ev) = u_id u"
  by (simp_all add: updatePageMetrics_def Let_def)

lemma count_event_fields [simp]:
  "sessions (state_of (count_event ev u)) = sessions u"
  "(currentSession (state_of (count_event ev u)) = None) = (currentSession u = None)"
  "m_totalSessions (metrics (state_of (count_event ev u))) = m_totalSessions (metrics u)"
  "personas (state_of (count_event ev u)) = personas u"
  "u_id (state_of (count_event ev u)) = u_id u"
  by (simp_all add: count_event_def split: sum.splits bool.splits)

lemma count_event_returns:
  "returns (count_event ev u)
   = (if pe_type ev = ''custom'' \<and> truthy_val (pe_name ev) then has_includes (pe_name ev) else True)"
  by (simp add: count_event_def includes_str_def has_includes_def split: jsval.splits bool.splits)

lemma updateDeviceMetrics_fields [simp]:
  "sessions (state_of (updateDeviceMetrics u d)) = sessions u"
  "currentSession (state_of (updateDeviceMetrics u d)) = currentSession u"
  "m_totalSessions (metrics (state_of (updateDeviceMetrics u d))) = m_totalSessions (metrics u)"
  "personas (state_of (updateDeviceMetrics u d)) = personas u"
  "u_id (state_of (updateDeviceMetrics u d)) = u_id u"
  by (simp_all add: updateDeviceMetrics_def Let_def split: sum.splits)

lemma updateDeviceMetrics_returns:
  "returns (updateDeviceMetrics u d) = (userAgent d \<noteq> None)"
  by (simp add: updateDeviceMetrics_def Let_def getBrowser_def split: option.splits)

lemma startNewSession_fields:
  "currentSession (startNewSession e u ev) \<noteq> None"
  "session_count_ok u \<Longrightarrow> m_totalSessions (metrics (startNewSession e u ev)) = length (sessions (startNewSession e u ev)) + 1"
  "personas (startNewSession e u ev) = personas u"
  "u_id (startNewSession e u ev) = u_id u"
  by (auto simp: startNewSession_def Let_def session_count_ok_def split: option.splits)

lemma updateUserProfile_kept:
  "personas (state_of (updateUserProfile e u ev)) = personas u"
  "u_id (state_of (updateUserProfile e u ev)) = u_id u"
  "currentSession (state_of (updateUserProfile e u ev)) \<noteq> None"
proof -
  define user2 where "user2 = (case currentSession (u\<lparr>lastSeen := pe_timestamp ev\<rparr>) of
                     None \<Rightarrow> startNewSession e (u\<lparr>lastSeen := pe_timestamp ev\<rparr>) ev
                   | Some cur \<Rightarrow> if isNewSession cur ev then startNewSession e (u\<lparr>lastSeen := pe_timestamp ev\<rparr>) ev
                                 else u\<lparr>lastSeen := pe_timestamp ev\<rparr>)"
  define user3 where "user3 = on_session (\<lambda>s. s\<lparr>ps_events := ps_events s @ [ev],
                                      lastActivity := pe_timestamp ev\<rparr>) user2"
  have u2: "personas user2 = personas u" "u_id user2 = u_id u" "currentSession user2 \<noteq> None"
    by (simp_all add: user2_def startNewSession_fields del: not_None_eq split: option.splits)
  have u3: "personas user3 = personas u" "u_id user3 = u_id u" "currentSession user3 \<noteq> None"
    using u2 by (simp_all add: user3_def del: not_None_eq)
  have unf: "updateUserProfile e u ev =
     (case count_event ev user3 of
           Throws err v \<Rightarrow> Throws err v
         | Returns user4 \<Rightarrow>
             (case (case pe_device ev of
                      None \<Rightarrow> Returns user4
                    | Some d \<Rightarrow> updateDeviceMetrics user4 d) of
                Throws err v \<Rightarrow> Throws err v
              | Returns user5 \<Rightarrow>
                  let user6 = on_session (\<lambda>s. s\<lparr>duration := lastActivity s - startTime s\<rparr>) user5
                  in Returns (user6\<lparr>metrics := (metrics user6)
                       \<lparr>totalDuration := foldl (\<lambda>acc s. acc + duration s) 0 (sessions user6)\<rparr>\<rparr>)))"
    by (simp add: updateUserProfile_def Let_def user2_def user3_def)
  define r4 where "r4 = count_event ev user3"
  define v4 where "v4 = state_of r4"
  define r5 where "r5 = (case pe_device ev of None \<Rightarrow> Returns v4 | Some d \<Rightarrow> updateDeviceMetrics v4 d)"
  define v5 where "v5 = state_of r5"
  define v6 where "v6 = on_session (\<lambda>s. s\<lparr>duration := lastActivity s - startTime s\<rparr>) v5"
  have f4: "personas v4 = personas u" "u_id v4 = u_id u" "currentSession v4 \<noteq> None"
    using u3 by (simp_all add: v4_def r4_def del: not_None_eq)
  have f5: "personas v5 = personas u" "u_id v5 = u_id u" "currentSession v5 \<noteq> None"
    using f4 by (simp_all add: v5_def r5_def del: not_None_eq split: option.splits)
  have st: "state_of (updateUserProfile e u ev) = v4
        \<or> state_of (updateUserProfile e u ev) = v5
        \<or> state_of (updateUserProfile e u ev)
            = v6\<lparr>metrics := (metrics v6)\<lparr>totalDuration := foldl (\<lambda>acc s. acc + duration s) 0 (sessions v6)\<rparr>\<rparr>"
  proof (cases r4)
    case (Throws err v)
    then show ?thesis by (simp add: unf v4_def r4_def)
  next
    case r: (Returns x)
    then have x: "x = v4" by (simp add: v4_def)
    show ?thesis
    proof (cases r5)
      case (Throws err v)
      with r x show ?thesis
        using r4_def r5_def v5_def by (simp add: unf)
    next
      case (Returns y)
      then have "y = v5" by (simp add: v5_def)
      with r x Returns show ?thesis
        using r4_def r5_def v6_def by (simp add: unf Let_def)
    qed
  qed
  have f6: "personas v6 = personas u" "u_id v6 = u_id u" "currentSession v6 \<noteq> None"
    using f5 by (simp_all add: v6_def del: not_None_eq)
  show "personas (state_of (updateUserProfile e u ev)) = personas u"
    using st f4(1) f5(1) f6(1) by auto
  show "u_id (state_of (updateUserProfile e u ev)) = u_id u"
    using st f4(2) f5(2) f6(2) by auto
  show "currentSession (state_of (updateUserProfile e u ev)) \<noteq> None"
    using st f4(3) f5(3) f6(3) by (auto simp del: not_None_eq)
qed

lemma updateUserProfile_returns:
  "returns (updateUserProfile e u ev) = well_formed_event ev"
proof -
  have a: "returns (case r of Throws err v \<Rightarrow> Throws err v | Returns x \<Rightarrow> f x)
           = (returns r \<and> returns (f (state_of r)))" for r :: "user_profile outcome" and f
    by (cases r) simp_all
  show ?thesis
    by (auto simp: updateUserProfile_def Let_def a count_event_returns updateDeviceMetrics_returns
          well_formed_event_def split: option.splits)
qed

lemma updateUserProfile_fields:
  assumes "updateUserProfile e u ev = Returns u1"
  shows "totalDuration (metrics u1) = sum_list (map duration (sessions u1))"
    and "session_count_ok u \<Longrightarrow> m_totalSessions (metrics u1) = length (sessions u1) + 1"
proof -
  define user2 where "user2 = (case currentSession (u\<lparr>lastSeen := pe_timestamp ev\<rparr>) of
                     None \<Rightarrow> startNewSession e (u\<lparr>lastSeen := pe_timestamp ev\<rparr>) ev
                   | Some cur \<Rightarrow> if isNewSession cur ev then startNewSession e (u\<lparr>lastSeen := pe_timestamp ev\<rparr>) ev
                                 else u\<lparr>lastSeen := pe_timestamp ev\<rparr>)"
  define user3 where "user3 = on_session (\<lambda>s. s\<lparr>ps_events := ps_events s @ [ev],
                                      lastActivity := pe_timestamp ev\<rparr>) user2"
  have n2: "session_count_ok u \<Longrightarrow> m_totalSessions (metrics user2) = length (sessions user2) + 1"
    by (auto simp: user2_def startNewSession_fields session_count_ok_def split: option.splits)
  have n3: "session_count_ok u \<Longrightarrow> m_totalSessions (metrics user3) = length (sessions user3) + 1"
    using n2 by (simp add: user3_def)
  obtain user4 user5 where c4: "count_event ev user3 = Returns user4"
    and c5: "(case pe_device ev of None \<Rightarrow> Returns user4 | Some d \<Rightarrow> updateDeviceMetrics user4 d) = Returns user5"
    and u1: "u1 = (on_session (\<lambda>s. s\<lparr>duration := lastActivity s - startTime s\<rparr>) user5)
                    \<lparr>metrics := (metrics (on_session (\<lambda>s. s\<lparr>duration := lastActivity s - startTime s\<rparr>) user5))
                       \<lparr>totalDuration := foldl (\<lambda>acc s. acc + duration s) 0
                           (sessions (on_session (\<lambda>s. s\<lparr>duration := lastActivity s - startTime s\<rparr>) user5))\<rparr>\<rparr>"
    using assms
    by (auto simp: updateUserProfile_def Let_def user2_def user3_def split: outcome.splits)
  have s4: "sessions user4 = sessions user3" "m_totalSessions (metrics user4) = m_totalSessions (metrics user3)"
    using count_event_fields(1,3)[of ev user3] by (simp_all add: c4)
  have s5: "sessions user5 = sessions user4
           \<and> m_totalSessions (metrics user5) = m_totalSessions (metrics user4)"
  proof (cases "pe_device ev")
    case None
    with c5 show ?thesis by simp
  next
    case (Some d)
    with c5 have "updateDeviceMetrics user4 d = Returns user5" by simp
    with updateDeviceMetrics_fields(1,3)[of user4 d]
    show ?thesis by simp
  qed
  show "totalDuration (metrics u1) = sum_list (map duration (sessions u1))"
    by (simp add: u1 foldl_duration)
  show "session_count_ok u \<Longrightarrow> m_totalSessions (metrics u1) = length (sessions u1) + 1"
    using n3 s4 s5 by (simp add: u1)
qed

lemma throws_TypeError:
  assumes "\<not> returns r" and "(case r of Returns s \<Rightarrow> TypeError | Throws err s \<Rightarrow> err) = TypeError"
  shows "r = Throws TypeError (state_of r)"
  using assms by (cases r) simp_all

lemma analyzeUserPersona_users:
  "\<exists>ps. users (state_of (analyzeUserPersona h t user pa))
        = AList.update (u_id user) (user\<lparr>personas := ps\<rparr>) (users pa)"
  by (auto simp: analyzeUserPersona_def Let_def put_user_def updatePersonaMetrics_def
           split: outcome.splits prod.splits)

lemma get_or_create_count:
  assumes "case map_of (users pa) userId of None \<Rightarrow> True | Some u \<Rightarrow> session_count_ok u"
  shows "session_count_ok (get_or_create e userId pa)"
  using assms
  by (auto simp: get_or_create_def createUserProfile_def session_count_ok_def split: option.splits)

text \<open>
  The session counter stays right through \<open>addUserEvent\<close>, whether the call returns or
  raises; a new profile has it right.
\<close>

lemma updateUserProfile_count:
  assumes "session_count_ok u"
  shows "session_count_ok (state_of (updateUserProfile e u ev))"
proof -
  define user2 where "user2 = (case currentSession (u\<lparr>lastSeen := pe_timestamp ev\<rparr>) of
                     None \<Rightarrow> startNewSession e (u\<lparr>lastSeen := pe_timestamp ev\<rparr>) ev
                   | Some cur \<Rightarrow> if isNewSession cur ev then startNewSession e (u\<lparr>lastSeen := pe_timestamp ev\<rparr>) ev
                                 else u\<lparr>lastSeen := pe_timestamp ev\<rparr>)"
  define user3 where "user3 = on_session (\<lambda>s. s\<lparr>ps_events := ps_events s @ [ev],
                                      lastActivity := pe_timestamp ev\<rparr>) user2"
  have "session_count_ok user2"
    using assms
    by (auto simp: user2_def startNewSession_def Let_def session_count_ok_def split: option.splits)
  then have c3: "session_count_ok user3"
    by (simp add: user3_def session_count_ok_def)
  define v4 where "v4 = state_of (count_event ev user3)"
  define v5 where "v5 = state_of (case pe_device ev of None \<Rightarrow> Returns v4 | Some d \<Rightarrow> updateDeviceMetrics v4 d)"
  define v6 where "v6 = on_session (\<lambda>s. s\<lparr>duration := lastActivity s - startTime s\<rparr>) v5"
  have c4: "session_count_ok v4"
    using c3 by (simp add: v4_def session_count_ok_def)
  have c5: "session_count_ok v5"
    using c4 by (simp add: v5_def session_count_ok_def split: option.splits)
  have c6: "session_count_ok
              (v6\<lparr>metrics := (metrics v6)\<lparr>totalDuration := foldl (\<lambda>acc s. acc + duration s) 0 (sessions v6)\<rparr>\<rparr>)"
    using c5 by (simp add: v6_def session_count_ok_def)
  have "state_of (updateUserProfile e u ev) = v4
        \<or> state_of (updateUserProfile e u ev) = v5
        \<or> state_of (updateUserProfile e u ev)
            = v6\<lparr>metrics := (metrics v6)\<lparr>totalDuration := foldl (\<lambda>acc s. acc + duration s) 0 (sessions v6)\<rparr>\<rparr>"
  proof (cases "count_event ev user3")
    case (Throws err v)
    then show ?thesis
      by (simp add: updateUserProfile_def Let_def user2_def user3_def v4_def)
  next
    case r: (Returns x)
    then have x: "x = v4" by (simp add: v4_def)
    show ?thesis
    proof (cases "case pe_device ev of None \<Rightarrow> Returns v4 | Some d \<Rightarrow> updateDeviceMetrics v4 d")
      case (Throws err v)
      with r x show ?thesis
        using user2_def user3_def v5_def by (simp add: updateUserProfile_def Let_def)
    next
      case (Returns y)
      then have "y = v5" by (simp add: v5_def)
      with r x Returns show ?thesis
        using user2_def user3_def v6_def by (simp add: updateUserProfile_def Let_def)
    qed
  qed
  with c4 c5 c6 show ?thesis by auto
qed

lemma addUserEvent_session_count:
  assumes "\<forall>uid u. map_of (users pa) uid = Some u \<longrightarrow> session_count_ok u"
  shows "\<forall>uid u. map_of (users (state_of (addUserEvent h e userId ev pa))) uid = Some u
                  \<longrightarrow> session_count_ok u"
proof -
  define user1 where "user1 = state_of (updateUserProfile e (get_or_create e userId pa) ev)"
  define pa1 where "pa1 = pa\<lparr>users := AList.update userId user1 (users pa)\<rparr>"
  have "session_count_ok (get_or_create e userId pa)"
    using assms by (intro get_or_create_count) (simp split: option.splits)
  then have c1: "session_count_ok user1"
    unfolding user1_def by (rule updateUserProfile_count)
  have a1: "\<forall>uid u. map_of (users pa1) uid = Some u \<longrightarrow> session_count_ok u"
    using assms c1 by (simp add: pa1_def update_conv')
  have res: "state_of (addUserEvent h e userId ev pa) = pa1
             \<or> addUserEvent h e userId ev pa = analyzeUserPersona h (now e) user1 pa1"
    by (cases "updateUserProfile e (get_or_create e userId pa) ev")
       (simp_all add: addUserEvent_def user1_def pa1_def)
  obtain ps where us: "users (state_of (analyzeUserPersona h (now e) user1 pa1))
        = AList.update (u_id user1) (user1\<lparr>personas := ps\<rparr>) (users pa1)"
    using analyzeUserPersona_users by blast
  have "session_count_ok (user1\<lparr>personas := ps\<rparr>)"
    using c1 by (simp add: session_count_ok_def)
  with a1 have "\<forall>uid u. map_of (users (state_of (analyzeUserPersona h (now e) user1 pa1))) uid = Some u
                  \<longrightarrow> session_count_ok u"
    unfolding us by (simp add: update_conv')
  with a1 res show ?thesis by auto
qed




subsection \<open>Profiles and segments agree\<close>

lemma has_update [simp]:
  "has_segment (AList.update k sg sgs) j = (j = k \<or> has_segment sgs j)"
  by (simp add: has_segment_def update_conv')

lemma member_update [simp]:
  "is_member (AList.update k sg sgs) j v = (if j = k then v \<in> set (seg_users sg) else is_member sgs j v)"
  by (simp add: is_member_def update_conv')

lemma set_set_add [simp]: "set (set_add x xs) = insert x (set xs)"
  by (auto simp: set_add_def)

lemma set_set_delete [simp]: "set (set_delete x xs) = set xs - {x}"
  by (auto simp: set_delete_def)

lemma assign_personas_inv:
  assumes "\<forall>p\<in>set ps. has_segment (segs st) (p_id p)"
    and "agree_on (u_id user) st"
    and "\<forall>k\<in>as_id ` set (user_personas st). has_segment (segs st) k"
  shows "agree_on (u_id user) (state_of (assign_personas h t user cp ps st))
     \<and> (\<forall>k. has_segment (segs (state_of (assign_personas h t user cp ps st))) k = has_segment (segs st) k)
     \<and> (\<forall>k v. v \<noteq> u_id user \<longrightarrow>
            is_member (segs (state_of (assign_personas h t user cp ps st))) k v = is_member (segs st) k v)
     \<and> (\<forall>k\<in>as_id ` set (user_personas (state_of (assign_personas h t user cp ps st))).
            has_segment (segs st) k)"
  using assms
proof (induction ps arbitrary: st)
  case Nil
  then show ?case by simp
next
  case (Cons p ps)
  from Cons.prems(1) have hp: "has_segment (segs st) (p_id p)"
    and hps: "\<forall>q\<in>set ps. has_segment (segs st) (p_id q)" by simp_all
  show ?case
  proof (cases "userMatchesPersona h user p")
    case (Inl e)
    with Cons.prems show ?thesis by simp
  next
    case (Inr b)
    show ?thesis
    proof (cases b)
      case False
      with Inr Cons.IH[OF hps Cons.prems(2,3)] show ?thesis by simp
    next
      case True
      let ?st1 = "st\<lparr>newPersonas := set_add (p_id p) (newPersonas st)\<rparr>"
      show ?thesis
      proof (cases "p_id p \<in> set cp")
        case old: True
        have a: "agree_on (u_id user) ?st1" using Cons.prems(2) by (simp add: agree_on_def)
        have "\<forall>q\<in>set ps. has_segment (segs ?st1) (p_id q)" using hps by simp
        moreover have "\<forall>k\<in>as_id ` set (user_personas ?st1). has_segment (segs ?st1) k"
          using Cons.prems(3) by simp
        ultimately show ?thesis
          using Cons.IH[of ?st1] a Inr True old by simp
      next
        case new: False
        from hp obtain sg where sg: "map_of (segs st) (p_id p) = Some sg"
          by (auto simp: has_segment_def)
        let ?st3 = "?st1\<lparr>user_personas := user_personas ?st1 @
                         [\<lparr>as_id = p_id p, assignedAt = t,
                           confidence = calculatePersonaConfidence h user p\<rparr>],
                       segs := AList.update (p_id p)
                                      (sg\<lparr>seg_users := set_add (u_id user) (seg_users sg)\<rparr>) (segs st)\<rparr>"
        have step: "assign_personas h t user cp (p # ps) st = assign_personas h t user cp ps ?st3"
          using Inr True new sg by (simp add: Let_def)
        have a: "agree_on (u_id user) ?st3"
          using Cons.prems(2) by (auto simp: agree_on_def)
        have h3: "\<forall>k. has_segment (segs ?st3) k = has_segment (segs st) k"
          using hp by auto
        have m3: "\<forall>k v. v \<noteq> u_id user \<longrightarrow> is_member (segs ?st3) k v = is_member (segs st) k v"
          using sg by (simp add: is_member_def update_conv')
        have b: "\<forall>q\<in>set ps. has_segment (segs ?st3) (p_id q)" using hps h3 by simp
        have c: "\<forall>k\<in>as_id ` set (user_personas ?st3). has_segment (segs ?st3) k"
          using Cons.prems(3) hp by auto
        from Cons.IH[OF b a c] h3 m3 show ?thesis
          unfolding step by simp
      qed
    qed
  qed
qed

lemma drop_personas_result:
  assumes "\<forall>a\<in>set as. has_segment sgs (as_id a)"
  shows "\<exists>sgs'. drop_personas uid keep as sgs = Returns (filter (\<lambda>a. as_id a \<in> set keep) as, sgs')
           \<and> (\<forall>k. has_segment sgs' k = has_segment sgs k)
           \<and> (\<forall>k v. is_member sgs' k v
                  = (is_member sgs k v \<and> \<not> (v = uid \<and> k \<in> as_id ` set as \<and> k \<notin> set keep)))"
  using assms
proof (induction as arbitrary: sgs)
  case Nil
  then show ?case by simp
next
  case (Cons a as)
  from Cons.prems have ha: "has_segment sgs (as_id a)"
    and has: "\<forall>b\<in>set as. has_segment sgs (as_id b)" by simp_all
  show ?case
  proof (cases "as_id a \<in> set keep")
    case True
    from Cons.IH[OF has] obtain sgs' where
      r: "drop_personas uid keep as sgs = Returns (filter (\<lambda>a. as_id a \<in> set keep) as, sgs')"
      and h: "\<forall>k. has_segment sgs' k = has_segment sgs k"
      and m: "\<forall>k v. is_member sgs' k v
                  = (is_member sgs k v \<and> \<not> (v = uid \<and> k \<in> as_id ` set as \<and> k \<notin> set keep))"
      by blast
    have "drop_personas uid keep (a # as) sgs = Returns (filter (\<lambda>a. as_id a \<in> set keep) (a # as), sgs')"
      using True r by simp
    moreover have "\<forall>k v. is_member sgs' k v
                  = (is_member sgs k v \<and> \<not> (v = uid \<and> k \<in> as_id ` set (a # as) \<and> k \<notin> set keep))"
      using m True by auto
    ultimately show ?thesis using h by blast
  next
    case False
    from ha obtain sg where sg: "map_of sgs (as_id a) = Some sg"
      by (auto simp: has_segment_def)
    let ?sgs1 = "AList.update (as_id a) (sg\<lparr>seg_users := set_delete uid (seg_users sg)\<rparr>) sgs"
    have has1: "\<forall>b\<in>set as. has_segment ?sgs1 (as_id b)" using has by simp
    from Cons.IH[OF has1] obtain sgs' where
      r: "drop_personas uid keep as ?sgs1 = Returns (filter (\<lambda>a. as_id a \<in> set keep) as, sgs')"
      and h: "\<forall>k. has_segment sgs' k = has_segment ?sgs1 k"
      and m: "\<forall>k v. is_member sgs' k v
                  = (is_member ?sgs1 k v \<and> \<not> (v = uid \<and> k \<in> as_id ` set as \<and> k \<notin> set keep))"
      by blast
    have r': "drop_personas uid keep (a # as) sgs = Returns (filter (\<lambda>a. as_id a \<in> set keep) (a # as), sgs')"
      using False sg r by simp
    have h': "\<forall>k. has_segment sgs' k = has_segment sgs k"
      using h ha by auto
    have m1: "\<forall>k v. is_member ?sgs1 k v = (is_member sgs k v \<and> \<not> (v = uid \<and> k = as_id a))"
      using sg by (auto simp: is_member_def update_conv')
    have m': "\<forall>k v. is_member sgs' k v
                  = (is_member sgs k v \<and> \<not> (v = uid \<and> k \<in> as_id ` set (a # as) \<and> k \<notin> set keep))"
      using m m1 False by auto
    from r' h' m' show ?thesis by blast
  qed
qed

lemma map_of_recompute:
  "map_of (map (\<lambda>(pid, sg). (pid, recompute t pa sg)) sgs) k = map_option (recompute t pa) (map_of sgs k)"
  by (induction sgs) auto

lemma seg_users_recompute [simp]: "seg_users (recompute t pa sg) = seg_users sg"
  by (simp add: recompute_def Let_def)

lemma updatePersonaMetrics_view [simp]:
  "cfg_personas (updatePersonaMetrics t pa) = cfg_personas pa"
  "users (updatePersonaMetrics t pa) = users pa"
  "has_segment (segments (updatePersonaMetrics t pa)) k = has_segment (segments pa) k"
  "is_member (segments (updatePersonaMetrics t pa)) k v = is_member (segments pa) k v"
  by (simp_all add: updatePersonaMetrics_def has_segment_def is_member_def map_of_recompute
               split: option.splits)

lemma is_assigned_metrics [simp]:
  "is_assigned (updatePersonaMetrics t pa) k v = is_assigned pa k v"
  by (simp add: is_assigned_def)

lemma persona_inv_metrics: "persona_inv (updatePersonaMetrics t pa) = persona_inv pa"
  by (simp add: persona_inv_def)

lemma persona_inv_step:
  assumes inv: "persona_inv pa"
    and me: "map_of (users pa) uid = Some user"
    and has: "\<forall>k. has_segment sgs' k = has_segment (segments pa) k"
    and others: "\<forall>k v. v \<noteq> uid \<longrightarrow> is_member sgs' k v = is_member (segments pa) k v"
    and mine: "\<forall>k. has_segment sgs' k \<longrightarrow> (k \<in> as_id ` set ps') = is_member sgs' k uid"
    and segsok: "\<forall>k\<in>as_id ` set ps'. has_segment sgs' k"
  shows "persona_inv (put_user (user\<lparr>personas := ps'\<rparr>) (pa\<lparr>segments := sgs'\<rparr>))"
proof -
  from inv me have id: "u_id user = uid" by (auto simp: persona_inv_def)
  let ?pa' = "put_user (user\<lparr>personas := ps'\<rparr>) (pa\<lparr>segments := sgs'\<rparr>)"
  have us: "map_of (users ?pa') = (map_of (users pa))(uid \<mapsto> user\<lparr>personas := ps'\<rparr>)"
    by (simp add: put_user_def id update_conv')
  have sg: "segments ?pa' = sgs'" and cf: "cfg_personas ?pa' = cfg_personas pa"
    by (simp_all add: put_user_def)
  have asg: "\<forall>k v. is_assigned ?pa' k v = (if v = uid then k \<in> as_id ` set ps' else is_assigned pa k v)"
    by (simp add: is_assigned_def us)
  have a: "\<forall>p\<in>set (cfg_personas ?pa'). has_segment (segments ?pa') (p_id p)"
    using inv has by (simp add: persona_inv_def sg cf)
  have b: "\<forall>v u. map_of (users ?pa') v = Some u \<longrightarrow> u_id u = v"
    using inv id by (auto simp: persona_inv_def us)
  have c: "\<forall>k v. is_assigned ?pa' k v \<longrightarrow> has_segment (segments ?pa') k"
    using inv has segsok by (auto simp: persona_inv_def sg asg)
  have d: "\<forall>k v. has_segment (segments ?pa') k \<longrightarrow>
            is_member (segments ?pa') k v = is_assigned ?pa' k v"
    using inv has others mine by (auto simp: persona_inv_def sg asg)
  from a b c d show ?thesis
    unfolding persona_inv_def by blast
qed

lemma analyzeUserPersona_inv:
  assumes inv: "persona_inv pa" and me: "map_of (users pa) (u_id user) = Some user"
  shows "persona_inv (state_of (analyzeUserPersona h t user pa))"
proof -
  let ?uid = "u_id user"
  let ?init = "\<lparr>newPersonas = [], user_personas = personas user, segs = segments pa\<rparr>"
  let ?r = "assign_personas h t user (map as_id (personas user)) (cfg_personas pa) ?init"
  let ?st = "state_of ?r"
  have asg: "\<forall>k. is_assigned pa k ?uid = (k \<in> as_id ` set (personas user))"
    using me by (simp add: is_assigned_def)
  have p0: "\<forall>p\<in>set (cfg_personas pa). has_segment (segs ?init) (p_id p)"
    using inv by (simp add: persona_inv_def)
  have a0: "agree_on ?uid ?init"
    using inv asg by (simp add: agree_on_def persona_inv_def)
  have c0: "\<forall>k\<in>as_id ` set (user_personas ?init). has_segment (segs ?init) k"
  proof
    fix k
    assume "k \<in> as_id ` set (user_personas ?init)"
    then have "is_assigned pa k ?uid" using asg by simp
    then have "has_segment (segments pa) k"
      using inv unfolding persona_inv_def by blast
    then show "has_segment (segs ?init) k" by simp
  qed
  from assign_personas_inv[OF p0 a0 c0, of h t "map as_id (personas user)"]
  have a: "agree_on ?uid ?st"
    and hs: "\<forall>k. has_segment (segs ?st) k = has_segment (segments pa) k"
    and ms: "\<forall>k v. v \<noteq> ?uid \<longrightarrow> is_member (segs ?st) k v = is_member (segments pa) k v"
    and cs: "\<forall>k\<in>as_id ` set (user_personas ?st). has_segment (segments pa) k"
    by simp_all
  show ?thesis
  proof (cases ?r)
    case (Throws e st)
    then have st: "?st = st" by simp
    have "persona_inv (put_user (user\<lparr>personas := user_personas st\<rparr>) (pa\<lparr>segments := segs st\<rparr>))"
      using a hs ms cs unfolding st
      by (intro persona_inv_step[OF inv me]) (simp_all add: agree_on_def)
    with Throws show ?thesis by (simp add: analyzeUserPersona_def Let_def)
  next
    case (Returns st)
    then have st: "?st = st" by simp
    have "\<forall>a\<in>set (user_personas st). has_segment (segs st) (as_id a)"
      using cs hs unfolding st by simp
    from drop_personas_result[OF this, of ?uid "newPersonas st"] obtain sgs' where
      d: "drop_personas ?uid (newPersonas st) (user_personas st) (segs st)
            = Returns (filter (\<lambda>a. as_id a \<in> set (newPersonas st)) (user_personas st), sgs')"
      and dh: "\<forall>k. has_segment sgs' k = has_segment (segs st) k"
      and dm: "\<forall>k v. is_member sgs' k v
                  = (is_member (segs st) k v
                     \<and> \<not> (v = ?uid \<and> k \<in> as_id ` set (user_personas st) \<and> k \<notin> set (newPersonas st)))"
      by blast
    let ?kept = "filter (\<lambda>a. as_id a \<in> set (newPersonas st)) (user_personas st)"
    have "persona_inv (put_user (user\<lparr>personas := ?kept\<rparr>) (pa\<lparr>segments := sgs'\<rparr>))"
    proof (intro persona_inv_step[OF inv me])
      show "\<forall>k. has_segment sgs' k = has_segment (segments pa) k"
        using dh hs unfolding st by simp
      show "\<forall>k v. v \<noteq> ?uid \<longrightarrow> is_member sgs' k v = is_member (segments pa) k v"
        using dm ms unfolding st by simp
      show "\<forall>k. has_segment sgs' k \<longrightarrow> (k \<in> as_id ` set ?kept) = is_member sgs' k ?uid"
        using dm dh a unfolding st by (auto simp: agree_on_def)
      show "\<forall>k\<in>as_id ` set ?kept. has_segment sgs' k"
        using dh hs cs unfolding st by auto
    qed
    with Returns d show ?thesis
      by (simp add: analyzeUserPersona_def Let_def persona_inv_metrics)
  qed
qed

lemma addUserEvent_persona_inv:
  assumes inv: "persona_inv pa"
  shows "persona_inv (state_of (addUserEvent h e userId ev pa))"
proof -
  define user0 where "user0 = get_or_create e userId pa"
  define user1 where "user1 = state_of (updateUserProfile e user0 ev)"
  define pa1 where "pa1 = pa\<lparr>users := AList.update userId user1 (users pa)\<rparr>"
  have res: "state_of (addUserEvent h e userId ev pa) = pa1
             \<or> addUserEvent h e userId ev pa = analyzeUserPersona h (now e) user1 pa1"
    by (cases "updateUserProfile e user0 ev")
       (simp_all add: addUserEvent_def user0_def user1_def pa1_def)
  have id0: "u_id user0 = userId"
    using inv by (auto simp: user0_def get_or_create_def createUserProfile_def persona_inv_def split: option.splits)
  have id1: "u_id user1 = userId" and ps1: "personas user1 = personas user0"
    using id0 by (simp_all add: user1_def updateUserProfile_kept)
  have asg0: "\<forall>k. is_assigned pa k userId = (k \<in> as_id ` set (personas user0))"
    by (simp add: is_assigned_def user0_def get_or_create_def createUserProfile_def split: option.splits)
  have asg1: "\<forall>k v. is_assigned pa1 k v = is_assigned pa k v"
    using asg0 ps1 by (simp add: is_assigned_def pa1_def update_conv')
  have inv1: "persona_inv pa1"
    unfolding persona_inv_def
  proof (intro conjI)
    show "\<forall>p\<in>set (cfg_personas pa1). has_segment (segments pa1) (p_id p)"
      using inv by (simp add: persona_inv_def pa1_def)
    show "\<forall>uid u. map_of (users pa1) uid = Some u \<longrightarrow> u_id u = uid"
      using inv id1 by (auto simp: persona_inv_def pa1_def update_conv')
    show "\<forall>pid uid. is_assigned pa1 pid uid \<longrightarrow> has_segment (segments pa1) pid"
      using inv asg1 by (simp add: persona_inv_def pa1_def)
    show "\<forall>pid uid. has_segment (segments pa1) pid \<longrightarrow>
            is_member (segments pa1) pid uid = is_assigned pa1 pid uid"
      using inv asg1 by (simp add: persona_inv_def pa1_def)
  qed
  have me: "map_of (users pa1) (u_id user1) = Some user1"
    by (simp add: pa1_def id1 update_conv')
  from analyzeUserPersona_inv[OF inv1 me, of h "now e"] inv1 res show ?thesis
    by auto
qed

lemma persona_inv_agree: "persona_inv pa \<Longrightarrow> memberships_agree pa"
  unfolding persona_inv_def memberships_agree_def
proof (intro allI impI ballI)
  fix uid u p
  assume inv: "(\<forall>p\<in>set (cfg_personas pa). has_segment (segments pa) (p_id p)) \<and>
       (\<forall>uid u. map_of (users pa) uid = Some u \<longrightarrow> u_id u = uid) \<and>
       (\<forall>pid uid. is_assigned pa pid uid \<longrightarrow> has_segment (segments pa) pid) \<and>
       (\<forall>pid uid. has_segment (segments pa) pid \<longrightarrow> is_member (segments pa) pid uid = is_assigned pa pid uid)"
    and u: "map_of (users pa) uid = Some u" and p: "p \<in> set (cfg_personas pa)"
  from inv p have h: "has_segment (segments pa) (p_id p)" by blast
  with inv have "is_member (segments pa) (p_id p) uid = is_assigned pa (p_id p) uid" by blast
  with h u show "(p_id p \<in> as_id ` set (personas u))
           = (uid \<in> set (seg_users (the (map_of (segments pa) (p_id p)))))"
    by (auto simp: is_member_def is_assigned_def has_segment_def)
qed

lemma persona_inv_new: "persona_inv (new_persona_analyzer t)"
  by (simp add: persona_inv_def new_persona_analyzer_def initializeDefaultPersonas_def definePersona_def
        Let_def is_assigned_def is_member_def has_segment_def update_conv')

lemma definePersona_persona_inv:
  assumes inv: "persona_inv pa" and fresh: "\<not> has_segment (segments pa) pid"
  shows "persona_inv (snd (definePersona t pid config pa))"
proof -
  have "\<forall>uid. \<not> is_assigned pa pid uid"
    using inv fresh unfolding persona_inv_def by blast
  then show ?thesis
    using inv fresh
    by (auto simp: persona_inv_def definePersona_def Let_def is_assigned_def)
qed

text \<open>
  C9. \<open>addUserEvent\<close> preserves the invariant of the analyzer, whether the call returns
  or raises (in the update of the profile or in a rule); under it, for every stored profile and every configured persona, the
  id of the persona is among the assignments of the profile exactly when the id of the
  user is among the members of the segment. The new analyzer satisfies the invariant
  (\<open>persona_inv_new\<close>), and defining a persona under an unused id keeps it
  (\<open>definePersona_persona_inv\<close>).
\<close>

theorem membership_records_agree:
  assumes "persona_inv pa"
  shows "persona_inv (state_of (addUserEvent h e userId ev pa))
         \<and> memberships_agree (state_of (addUserEvent h e userId ev pa))"
  using addUserEvent_persona_inv[OF assms, of h e userId ev] persona_inv_agree
  by blast

text \<open>The first page view of a user makes the user a Bouncer, in both records.\<close>

theorem membership_records_agree_witness:
  "persona_inv (new_persona_analyzer 0)
   \<and> memberships_agree (state_of (addUserEvent example_coercions env_a ''u1'' (page_view 0) (new_persona_analyzer 0)))
   \<and> map as_id (personas (the (map_of (users
        (state_of (addUserEvent example_coercions env_a ''u1'' (page_view 0) (new_persona_analyzer 0)))) ''u1'')))
      = [''bouncer'']
   \<and> seg_users (the (map_of (segments
        (state_of (addUserEvent example_coercions env_a ''u1'' (page_view 0) (new_persona_analyzer 0)))) ''bouncer''))
      = [''u1'']"
proof -
  have h: "persona_inv (new_persona_analyzer 0)"
    by (rule persona_inv_new)
  note c = membership_records_agree[OF h, of example_coercions env_a "''u1''" "page_view 0", THEN conjunct2]
  have a: "map as_id (personas (the (map_of (users
        (state_of (addUserEvent example_coercions env_a ''u1'' (page_view 0) (new_persona_analyzer 0)))) ''u1'')))
      = [''bouncer'']"
    by code_simp
  have b: "seg_users (the (map_of (segments
        (state_of (addUserEvent example_coercions env_a ''u1'' (page_view 0) (new_persona_analyzer 0)))) ''bouncer''))
      = [''u1'']"
    by code_simp
  show ?thesis
    by (intro conjI h c a b)
qed

subsection \<open>The Power User persona\<close>

lemma every_rule_total:
  "(\<forall>r\<in>set rs. \<exists>b. evaluateRule h user r = Inr b) \<Longrightarrow> \<exists>b. every_rule h user rs = Inr b"
proof (induction rs)
  case Nil
  then show ?case by auto
next
  case (Cons r rs)
  then obtain b where b: "evaluateRule h user r = Inr b" by auto
  from Cons obtain c where "every_rule h user rs = Inr c" by auto
  with b show ?case by (cases b) auto
qed

lemma default_personas:
  "cfg_personas (new_persona_analyzer t)
   = [power_user t,
      fst (definePersona t ''casual_user'' casual_user_config \<lparr>cfg_personas = [], users = [], segments = []\<rparr>),
      fst (definePersona t ''bouncer'' bouncer_config \<lparr>cfg_personas = [], users = [], segments = []\<rparr>),
      fst (definePersona t ''mobile_user'' mobile_user_config \<lparr>cfg_personas = [], users = [], segments = []\<rparr>),
      fst (definePersona t ''converter'' converter_config \<lparr>cfg_personas = [], users = [], segments = []\<rparr>)]"
  by (simp add: new_persona_analyzer_def initializeDefaultPersonas_def definePersona_def Let_def power_user_def)

lemma gt_numbers: "js_gt h (VNum (Fin a)) (VNum (Fin b)) = (b < a)"
  by (simp add: js_gt_def is_less_than_def to_prim_def)

lemma assign_personas_matched:
  assumes "\<forall>p\<in>set ps. \<exists>b. userMatchesPersona h user p = Inr b"
    and "\<forall>p\<in>set ps. has_segment (segs st) (p_id p)"
    and "set cp \<subseteq> as_id ` set (user_personas st)"
    and "set (newPersonas st) \<subseteq> as_id ` set (user_personas st)"
  shows "\<exists>st'. assign_personas h t user cp ps st = Returns st'
     \<and> set (newPersonas st')
         = set (newPersonas st) \<union> p_id ` {p \<in> set ps. userMatchesPersona h user p = Inr True}
     \<and> set (newPersonas st') \<subseteq> as_id ` set (user_personas st')"
  using assms
proof (induction ps arbitrary: st)
  case Nil
  then show ?case by simp
next
  case (Cons p ps)
  from Cons.prems(1) obtain b where b: "userMatchesPersona h user p = Inr b" by auto
  from Cons.prems(1) have tot: "\<forall>q\<in>set ps. \<exists>b. userMatchesPersona h user q = Inr b" by simp
  from Cons.prems(2) have hp: "has_segment (segs st) (p_id p)"
    and hps: "\<forall>q\<in>set ps. has_segment (segs st) (p_id q)" by simp_all
  show ?case
  proof (cases b)
    case False
    from Cons.IH[OF tot hps Cons.prems(3,4)] obtain st' where
      "assign_personas h t user cp ps st = Returns st'"
      "set (newPersonas st')
         = set (newPersonas st) \<union> p_id ` {p \<in> set ps. userMatchesPersona h user p = Inr True}"
      "set (newPersonas st') \<subseteq> as_id ` set (user_personas st')"
      by blast
    with b False show ?thesis by auto
  next
    case True
    let ?st1 = "st\<lparr>newPersonas := set_add (p_id p) (newPersonas st)\<rparr>"
    show ?thesis
    proof (cases "p_id p \<in> set cp")
      case old: True
      have step: "assign_personas h t user cp (p # ps) st = assign_personas h t user cp ps ?st1"
        using b True old by (simp add: Let_def)
      have 1: "\<forall>q\<in>set ps. has_segment (segs ?st1) (p_id q)" using hps by simp
      have 2: "set cp \<subseteq> as_id ` set (user_personas ?st1)" using Cons.prems(3) by simp
      have 3: "set (newPersonas ?st1) \<subseteq> as_id ` set (user_personas ?st1)"
        using Cons.prems(3,4) old by auto
      from Cons.IH[OF tot 1 2 3] obtain st' where
        "assign_personas h t user cp ps ?st1 = Returns st'"
        "set (newPersonas st')
           = set (newPersonas ?st1) \<union> p_id ` {p \<in> set ps. userMatchesPersona h user p = Inr True}"
        "set (newPersonas st') \<subseteq> as_id ` set (user_personas st')"
        by blast
      with step b True show ?thesis by auto
    next
      case new: False
      from hp obtain sg where sg: "map_of (segs st) (p_id p) = Some sg"
        by (auto simp: has_segment_def)
      let ?st3 = "?st1\<lparr>user_personas := user_personas ?st1 @
                         [\<lparr>as_id = p_id p, assignedAt = t,
                           confidence = calculatePersonaConfidence h user p\<rparr>],
                       segs := AList.update (p_id p)
                                      (sg\<lparr>seg_users := set_add (u_id user) (seg_users sg)\<rparr>) (segs st)\<rparr>"
      have step: "assign_personas h t user cp (p # ps) st = assign_personas h t user cp ps ?st3"
        using b True new sg by (simp add: Let_def)
      have 1: "\<forall>q\<in>set ps. has_segment (segs ?st3) (p_id q)" using hps by simp
      have 2: "set cp \<subseteq> as_id ` set (user_personas ?st3)" using Cons.prems(3) by auto
      have 3: "set (newPersonas ?st3) \<subseteq> as_id ` set (user_personas ?st3)"
        using Cons.prems(4) by auto
      from Cons.IH[OF tot 1 2 3] obtain st' where
        "assign_personas h t user cp ps ?st3 = Returns st'"
        "set (newPersonas st')
           = set (newPersonas ?st3) \<union> p_id ` {p \<in> set ps. userMatchesPersona h user p = Inr True}"
        "set (newPersonas st') \<subseteq> as_id ` set (user_personas st')"
        by blast
      with step b True show ?thesis by auto
    qed
  qed
qed

lemma analyzeUserPersona_cfg:
  "cfg_personas (state_of (analyzeUserPersona h t user pa)) = cfg_personas pa"
  by (auto simp: analyzeUserPersona_def Let_def put_user_def split: outcome.splits prod.splits)

lemma analyzeUserPersona_matched:
  assumes inv: "persona_inv pa" and me: "map_of (users pa) (u_id user) = Some user"
    and tot: "\<forall>p\<in>set (cfg_personas pa). \<exists>b. userMatchesPersona h user p = Inr b"
  shows "returns (analyzeUserPersona h t user pa)
     \<and> (\<forall>k. is_assigned (state_of (analyzeUserPersona h t user pa)) k (u_id user)
            = (\<exists>p\<in>set (cfg_personas pa). p_id p = k \<and> userMatchesPersona h user p = Inr True))"
proof -
  let ?uid = "u_id user"
  let ?init = "\<lparr>newPersonas = [], user_personas = personas user, segs = segments pa\<rparr>"
  let ?cp = "map as_id (personas user)"
  have asg: "\<forall>k. is_assigned pa k ?uid = (k \<in> as_id ` set (personas user))"
    using me by (simp add: is_assigned_def)
  have p0: "\<forall>p\<in>set (cfg_personas pa). has_segment (segs ?init) (p_id p)"
    using inv by (simp add: persona_inv_def)
  have a0: "agree_on ?uid ?init"
    using inv asg by (simp add: agree_on_def persona_inv_def)
  have c0: "\<forall>k\<in>as_id ` set (user_personas ?init). has_segment (segs ?init) k"
  proof
    fix k
    assume "k \<in> as_id ` set (user_personas ?init)"
    then have "is_assigned pa k ?uid" using asg by simp
    then have "has_segment (segments pa) k"
      using inv unfolding persona_inv_def by blast
    then show "has_segment (segs ?init) k" by simp
  qed
  from assign_personas_matched[OF tot p0, where cp="?cp" and t=t] obtain st where
    r: "assign_personas h t user ?cp (cfg_personas pa) ?init = Returns st"
    and n: "set (newPersonas st) = p_id ` {p \<in> set (cfg_personas pa). userMatchesPersona h user p = Inr True}"
    and sub: "set (newPersonas st) \<subseteq> as_id ` set (user_personas st)"
    by auto
  from assign_personas_inv[OF p0 a0 c0, of h t ?cp] r
  have hs: "\<forall>k. has_segment (segs st) k = has_segment (segments pa) k"
    and cs: "\<forall>k\<in>as_id ` set (user_personas st). has_segment (segments pa) k"
    by simp_all
  have "\<forall>a\<in>set (user_personas st). has_segment (segs st) (as_id a)"
    using cs hs by simp
  from drop_personas_result[OF this, of ?uid "newPersonas st"] obtain sgs' where
    d: "drop_personas ?uid (newPersonas st) (user_personas st) (segs st)
          = Returns (filter (\<lambda>a. as_id a \<in> set (newPersonas st)) (user_personas st), sgs')"
    by blast
  let ?kept = "filter (\<lambda>a. as_id a \<in> set (newPersonas st)) (user_personas st)"
  have res: "analyzeUserPersona h t user pa
        = Returns (updatePersonaMetrics t (put_user (user\<lparr>personas := ?kept\<rparr>) (pa\<lparr>segments := sgs'\<rparr>)))"
    using r d by (simp add: analyzeUserPersona_def Let_def)
  have kept: "as_id ` set ?kept = set (newPersonas st)"
    using sub by auto
  have "\<forall>k. is_assigned (updatePersonaMetrics t (put_user (user\<lparr>personas := ?kept\<rparr>) (pa\<lparr>segments := sgs'\<rparr>))) k ?uid
          = (k \<in> set (newPersonas st))"
    using kept by (simp add: is_assigned_def put_user_def update_conv')
  with res n show ?thesis by auto
qed

lemma put_user_persona_inv:
  assumes inv: "persona_inv pa"
    and same: "personas u = (case map_of (users pa) (u_id u) of None \<Rightarrow> [] | Some u0 \<Rightarrow> personas u0)"
  shows "persona_inv (put_user u pa)"
proof -
  have asg: "\<forall>k v. is_assigned (put_user u pa) k v = is_assigned pa k v"
    using same by (auto simp: is_assigned_def put_user_def update_conv' split: option.splits)
  have ids: "\<forall>v w. map_of (users (put_user u pa)) v = Some w \<longrightarrow> u_id w = v"
    using inv by (auto simp: persona_inv_def put_user_def update_conv')
  have sg: "segments (put_user u pa) = segments pa" and cf: "cfg_personas (put_user u pa) = cfg_personas pa"
    by (simp_all add: put_user_def)
  from inv have a: "\<forall>p\<in>set (cfg_personas pa). has_segment (segments pa) (p_id p)"
    and c: "\<forall>pid uid. is_assigned pa pid uid \<longrightarrow> has_segment (segments pa) pid"
    and d: "\<forall>pid uid. has_segment (segments pa) pid \<longrightarrow>
            is_member (segments pa) pid uid = is_assigned pa pid uid"
    unfolding persona_inv_def by blast+
  show ?thesis
    unfolding persona_inv_def sg cf
  proof (intro conjI)
    show "\<forall>p\<in>set (cfg_personas pa). has_segment (segments pa) (p_id p)" by (rule a)
    show "\<forall>uid w. map_of (users (put_user u pa)) uid = Some w \<longrightarrow> u_id w = uid" by (rule ids)
    show "\<forall>pid uid. is_assigned (put_user u pa) pid uid \<longrightarrow> has_segment (segments pa) pid"
      using c asg by blast
    show "\<forall>pid uid. has_segment (segments pa) pid \<longrightarrow>
            is_member (segments pa) pid uid = is_assigned (put_user u pa) pid uid"
      using d asg by blast
  qed
qed

lemma evaluateRule_answers:
  assumes "rule_answers r"
  shows "\<exists>b. evaluateRule h user r = Inr b"
  using assms
  by (cases "rl_value r") (auto simp: evaluateRule_def Let_def rule_answers_def has_includes_def)

lemma rules_answer_total:
  assumes "rules_answer pa"
  shows "\<forall>p\<in>set (cfg_personas pa). \<exists>b. userMatchesPersona h user p = Inr b"
proof
  fix p
  assume "p \<in> set (cfg_personas pa)"
  with assms have "\<forall>r\<in>set (p_rules p). rule_answers r"
    by (auto simp: rules_answer_def list_all_iff)
  then have "\<forall>r\<in>set (p_rules p). \<exists>b. evaluateRule h user r = Inr b"
    using evaluateRule_answers by blast
  then show "\<exists>b. userMatchesPersona h user p = Inr b"
    unfolding userMatchesPersona_def by (rule every_rule_total)
qed

lemma rules_answer_new: "rules_answer (new_persona_analyzer t)"
  unfolding rules_answer_def default_personas
  by (simp add: definePersona_def Let_def power_user_def power_user_config_def casual_user_config_def
        bouncer_config_def mobile_user_config_def converter_config_def mk_rule_def rule_answers_def)

lemma has_power_user_new: "has_power_user (new_persona_analyzer t)"
  unfolding has_power_user_def default_personas
  by (simp add: definePersona_def Let_def power_user_def power_user_config_def)

lemma power_rules_match:
  assumes "Some (p_rules p) = pc_rules power_user_config" and "currentSession user = Some s"
  shows "userMatchesPersona h user p
         = Inr (10 < pageViews s \<and> 300000 < duration s \<and> 50 < clicks s)"
proof -
  from assms(1) have r: "p_rules p = [mk_rule ''pageViews'' ''>'' (num 10) ''session'',
                       mk_rule ''sessionDuration'' ''>'' (num 300000) ''session'',
                       mk_rule ''clickCount'' ''>'' (num 50) ''session'']"
    by (simp add: power_user_config_def)
  show ?thesis
    using assms(2)
    by (cases "10 < pageViews s"; cases "300000 < duration s"; cases "50 < clicks s")
       (simp_all add: userMatchesPersona_def r mk_rule_def num_def evaluateRule_def
          getUserMetric_def session_field_def gt_numbers)
qed

lemma assign_personas_returned:
  "assign_personas h t user cp ps st = Returns st' \<Longrightarrow>
     \<forall>p\<in>set ps. \<exists>b. userMatchesPersona h user p = Inr b"
proof (induction ps arbitrary: st)
  case Nil
  then show ?case by simp
next
  case (Cons p ps)
  show ?case
  proof (cases "userMatchesPersona h user p")
    case (Inl err)
    with Cons.prems show ?thesis by simp
  next
    case (Inr b)
    from Cons.prems Inr obtain st1 where "assign_personas h t user cp ps st1 = Returns st'"
      by (cases b) (auto simp: Let_def split: if_splits option.splits)
    from Cons.IH[OF this] Inr show ?thesis by simp
  qed
qed

lemma analyzeUserPersona_returned:
  assumes "analyzeUserPersona h t user pa = Returns pa'"
  shows "\<forall>p\<in>set (cfg_personas pa). \<exists>b. userMatchesPersona h user p = Inr b"
proof -
  from assms obtain st where
    "assign_personas h t user (map as_id (personas user)) (cfg_personas pa)
       \<lparr>newPersonas = [], user_personas = personas user, segs = segments pa\<rparr> = Returns st"
    by (auto simp: analyzeUserPersona_def Let_def split: outcome.splits)
  then show ?thesis by (rule assign_personas_returned)
qed

text \<open>
  What the analysis of a stored profile does about Power User, in an analyzer that
  satisfies the invariant.
\<close>

lemma power_user_analysis:
  assumes inv: "persona_inv pa" and hp: "has_power_user pa"
    and me: "map_of (users pa) (u_id user) = Some user"
    and cur: "currentSession user = Some s"
  shows "\<forall>p\<in>set (cfg_personas pa). p_id p = ''power_user'' \<longrightarrow>
           userMatchesPersona h user p = Inr (10 < pageViews s \<and> 300000 < duration s \<and> 50 < clicks s)"
    and "analyzeUserPersona h t user pa = Returns pa' \<Longrightarrow>
           is_member (segments pa') ''power_user'' (u_id user)
             = (10 < pageViews s \<and> 300000 < duration s \<and> 50 < clicks s)
           \<and> is_assigned pa' ''power_user'' (u_id user)
             = (10 < pageViews s \<and> 300000 < duration s \<and> 50 < clicks s)"
    and "rules_answer pa \<Longrightarrow> returns (analyzeUserPersona h t user pa)"
proof -
  from hp obtain q where q: "q \<in> set (cfg_personas pa)" "p_id q = ''power_user''"
    by (auto simp: has_power_user_def list_ex_iff)
  from hp have rs: "\<forall>p\<in>set (cfg_personas pa). p_id p = ''power_user'' \<longrightarrow>
                      Some (p_rules p) = pc_rules power_user_config"
    by (auto simp: has_power_user_def list_all_iff split: if_splits)
  show m: "\<forall>p\<in>set (cfg_personas pa). p_id p = ''power_user'' \<longrightarrow>
           userMatchesPersona h user p = Inr (10 < pageViews s \<and> 300000 < duration s \<and> 50 < clicks s)"
    using rs power_rules_match[OF _ cur] by blast
  show "rules_answer pa \<Longrightarrow> returns (analyzeUserPersona h t user pa)"
    using analyzeUserPersona_matched[OF inv me rules_answer_total] by blast
  show "is_member (segments pa') ''power_user'' (u_id user)
             = (10 < pageViews s \<and> 300000 < duration s \<and> 50 < clicks s)
           \<and> is_assigned pa' ''power_user'' (u_id user)
             = (10 < pageViews s \<and> 300000 < duration s \<and> 50 < clicks s)"
    if ret: "analyzeUserPersona h t user pa = Returns pa'"
  proof -
    have pa': "pa' = state_of (analyzeUserPersona h t user pa)"
      by (simp add: ret)
    from analyzeUserPersona_matched[OF inv me analyzeUserPersona_returned[OF ret], of t]
    have asg: "\<forall>k. is_assigned pa' k (u_id user)
            = (\<exists>p\<in>set (cfg_personas pa). p_id p = k \<and> userMatchesPersona h user p = Inr True)"
      unfolding pa' by blast
    have a: "is_assigned pa' ''power_user'' (u_id user)
             = (10 < pageViews s \<and> 300000 < duration s \<and> 50 < clicks s)"
      using asg m q by auto
    have inv': "persona_inv pa'"
      unfolding pa' using inv me by (rule analyzeUserPersona_inv)
    have "cfg_personas pa' = cfg_personas pa"
      unfolding pa' by (rule analyzeUserPersona_cfg)
    with inv' q have seg: "has_segment (segments pa') ''power_user''"
      unfolding persona_inv_def by metis
    have "is_member (segments pa') ''power_user'' (u_id user) = is_assigned pa' ''power_user'' (u_id user)"
      using inv' seg unfolding persona_inv_def by blast
    with a show ?thesis by simp
  qed
qed

lemma returns_state_of: "returns r \<Longrightarrow> r = Returns (state_of r)"
  by (cases r) simp_all

text \<open>The analyzer in which the updated profile of an ingest is stored, and the ingest.\<close>

lemma addUserEvent_analysis:
  assumes "updateUserProfile e (get_or_create e userId pa) ev = Returns user1"
  shows "addUserEvent h e userId ev pa
         = analyzeUserPersona h (now e) user1 (pa\<lparr>users := AList.update userId user1 (users pa)\<rparr>)"
  using assms by (simp add: addUserEvent_def)

lemma stored_update_inv:
  assumes inv: "persona_inv pa"
    and upd: "updateUserProfile e (get_or_create e userId pa) ev = Returns user1"
  shows "u_id user1 = userId"
    and "persona_inv (pa\<lparr>users := AList.update userId user1 (users pa)\<rparr>)"
proof -
  have id0: "u_id (get_or_create e userId pa) = userId"
    using inv by (auto simp: get_or_create_def createUserProfile_def persona_inv_def split: option.splits)
  show id1: "u_id user1 = userId"
    using updateUserProfile_kept(2)[of e "get_or_create e userId pa" ev] id0 by (simp add: upd)
  have "personas user1 = personas (get_or_create e userId pa)"
    using updateUserProfile_kept(1)[of e "get_or_create e userId pa" ev] by (simp add: upd)
  then have ps1: "personas user1
             = (case map_of (users pa) (u_id user1) of None \<Rightarrow> [] | Some u0 \<Rightarrow> personas u0)"
    by (simp add: id1 get_or_create_def createUserProfile_def split: option.splits)
  have "persona_inv (put_user user1 pa)"
    using inv ps1 by (rule put_user_persona_inv)
  then show "persona_inv (pa\<lparr>users := AList.update userId user1 (users pa)\<rparr>)"
    by (simp add: put_user_def id1)
qed


lemma same_personas:
  assumes "cfg_personas pa = cfg_personas pb"
  shows "has_power_user pa = has_power_user pb" and "rules_answer pa = rules_answer pb"
  using assms by (simp_all add: has_power_user_def rules_answer_def)



subsection \<open>Rules that answer and rules that raise\<close>

lemma evaluateRule_unknown_operator:
  assumes "operator r \<notin> {''>'', ''<'', ''>='', ''<='', ''='', ''!='', ''between'', ''in''}"
  shows "evaluateRule h user r = Inr False"
  using assms by (simp add: evaluateRule_def Let_def)

lemma evaluateRule_in_raises:
  assumes "operator r = ''in''" and "rl_value r = VNum x \<or> rl_value r = VBool b \<or> rl_value r = VUndefined"
  shows "evaluateRule h user r = Inl TypeError"
  using assms by (auto simp: evaluateRule_def Let_def)

lemma elementMatchesSelector_absent: "elementMatchesSelector None selector = False"
  by (simp add: elementMatchesSelector_def)

section \<open>Properties of the delivery of events\<close>

subsection \<open>When a flush starts\<close>

lemma tr_run_append: "tr_run (as @ bs) w = tr_run bs (tr_run as w)"
  by (simp add: tr_run_def)

lemma tr_run_single: "tr_run [a] w = tr_step a w"
  by (simp add: tr_run_def)

lemma enqueue_below:
  "length (tr_events (tw_tracker w)) + length es < 10 \<Longrightarrow>
   tr_run (map Enqueue es) w
   = w\<lparr>tw_tracker := (tw_tracker w)\<lparr>tr_events := tr_events (tw_tracker w) @ map (stamp (tw_tracker w)) es\<rparr>\<rparr>"
proof (induction es rule: rev_induct)
  case Nil
  then show ?case by (simp add: tr_run_def)
next
  case (snoc e es)
  then have "tr_run (map Enqueue es) w
   = w\<lparr>tw_tracker := (tw_tracker w)\<lparr>tr_events := tr_events (tw_tracker w) @ map (stamp (tw_tracker w)) es\<rparr>\<rparr>"
    by simp
  with snoc.prems show ?case
    by (simp add: tr_run_append tr_run_single tr_addEvent_def Let_def stamp_def)
qed

lemma enqueue_reaching:
  assumes "length (tr_events (tw_tracker w)) + length es = 9"
  shows "tr_run (map Enqueue (es @ [e])) w
   = (let buf = tr_events (tw_tracker w) @ map (stamp (tw_tracker w)) (es @ [e]);
          rq = \<lparr>rq_events = buf, rq_keepalive = False\<rparr>
      in w\<lparr>tw_tracker := (tw_tracker w)\<lparr>tr_events := buf\<rparr>,
            in_flight := in_flight w @ [rq], sent := sent w @ [rq]\<rparr>)"
proof -
  have "tr_run (map Enqueue es) w
   = w\<lparr>tw_tracker := (tw_tracker w)\<lparr>tr_events := tr_events (tw_tracker w) @ map (stamp (tw_tracker w)) es\<rparr>\<rparr>"
    using assms by (intro enqueue_below) simp
  with assms show ?thesis
    by (simp add: tr_run_append tr_run_single tr_addEvent_def Let_def stamp_def sendEvents_start_def)
qed

lemma enqueue_flush_iff:
  "(sent (tr_step (Enqueue e) w) \<noteq> sent w) = (10 \<le> length (tr_events (tw_tracker w)) + 1)"
  by (simp add: tr_addEvent_def Let_def sendEvents_start_def)

text \<open>
  The buffer only grows at its end in a step that is not the handling of an ok response,
  and the handling of the ok response to any request in flight empties it.
\<close>

lemma buffer_kept_step:
  assumes "\<not> is_ok_response a"
  shows "prefix (tr_events (tw_tracker w)) (tr_events (tw_tracker (tr_step a w)))"
proof (cases a)
  case (Enqueue e)
  then show ?thesis by (simp add: tr_addEvent_def Let_def sendEvents_start_def)
next
  case Tick
  then show ?thesis by (simp add: interval_tick_def sendEvents_start_def Let_def)
next
  case Unload
  then show ?thesis by (simp add: before_unload_def sendEvents_start_def Let_def)
next
  case (Respond i r)
  with assms have "r \<noteq> ResponseOk" by (simp add: is_ok_response_def)
  with Respond show ?thesis by (cases r) (simp_all add: sendEvents_resume_def)
qed

lemma buffer_kept_run:
  assumes "\<forall>a\<in>set acts. \<not> is_ok_response a"
  shows "prefix (tr_events (tw_tracker w)) (tr_events (tw_tracker (tr_run acts w)))"
  using assms
proof (induction acts rule: rev_induct)
  case Nil
  then show ?case by (simp add: tr_run_def)
next
  case (snoc a acts)
  then have p: "prefix (tr_events (tw_tracker w)) (tr_events (tw_tracker (tr_run acts w)))"
    and n: "\<not> is_ok_response a" by simp_all
  from p buffer_kept_step[OF n, of "tr_run acts w"]
  have "prefix (tr_events (tw_tracker w)) (tr_events (tw_tracker (tr_step a (tr_run acts w))))"
    by (rule prefix_order.order_trans)
  then show ?case
    by (simp only: tr_run_append tr_run_single)
qed

lemma ok_response_empties:
  "i < length (in_flight w) \<Longrightarrow> tr_events (tw_tracker (tr_step (Respond i ResponseOk) w)) = []"
  by (simp add: sendEvents_resume_def)

lemma flush_sends_buffer:
  assumes "tr_events (tw_tracker w) \<noteq> []"
  shows "sent (tr_step Tick w) = sent w @ [\<lparr>rq_events = tr_events (tw_tracker w), rq_keepalive = False\<rparr>]"
    and "sent (tr_step Unload w) = sent w @ [\<lparr>rq_events = tr_events (tw_tracker w), rq_keepalive = True\<rparr>]"
    and "tw_tracker (tr_step Tick w) = tw_tracker w"
  using assms by (simp_all add: interval_tick_def before_unload_def sendEvents_start_def Let_def)

text \<open>
  C4 (as the code has it), for \<open>StandLogTracker\<close>. \<open>addEvent\<close> starts a flush exactly
  when the buffer holds at least 10 events after the push. From an empty buffer, ten
  events start exactly one request, whose batch is those ten events in order; the buffer
  still holds them, and they stay at its front through every later step that is not the
  handling of an ok response; the handling of the ok response to that request, or to any
  other request in flight, empties the buffer. Nine events start no request, and the next
  tick of the interval starts exactly one, with those nine.
\<close>

theorem flush_at_threshold:
  assumes "tr_events (tw_tracker w) = []"
  shows "(length es = 10 \<longrightarrow>
            sent (tr_run (map Enqueue es) w)
              = sent w @ [\<lparr>rq_events = map (stamp (tw_tracker w)) es, rq_keepalive = False\<rparr>]
            \<and> tr_events (tw_tracker (tr_run (map Enqueue es) w)) = map (stamp (tw_tracker w)) es
            \<and> tr_events (tw_tracker (tr_step (Respond (length (in_flight w)) ResponseOk)
                                        (tr_run (map Enqueue es) w))) = []
            \<and> (\<forall>acts. (\<forall>a\<in>set acts. \<not> is_ok_response a) \<longrightarrow>
                  prefix (map (stamp (tw_tracker w)) es)
                    (tr_events (tw_tracker (tr_run acts (tr_run (map Enqueue es) w)))))
            \<and> (\<forall>acts i. i < length (in_flight (tr_run acts (tr_run (map Enqueue es) w))) \<longrightarrow>
                  tr_events (tw_tracker (tr_step (Respond i ResponseOk)
                                           (tr_run acts (tr_run (map Enqueue es) w)))) = []))
         \<and> (length es = 9 \<longrightarrow>
            sent (tr_run (map Enqueue es) w) = sent w
            \<and> sent (tr_run (map Enqueue es @ [Tick]) w)
              = sent w @ [\<lparr>rq_events = map (stamp (tw_tracker w)) es, rq_keepalive = False\<rparr>])
         \<and> ((sent (tr_step (Enqueue e) v) \<noteq> sent v) = (10 \<le> length (tr_events (tw_tracker v)) + 1))"
proof (intro conjI impI)
  assume len: "length es = 10"
  then obtain es' e' where es: "es = es' @ [e']" and l': "length es' = 9"
    by (cases es rule: rev_cases) auto
  have r: "tr_run (map Enqueue es) w
   = (let buf = tr_events (tw_tracker w) @ map (stamp (tw_tracker w)) es;
          rq = \<lparr>rq_events = buf, rq_keepalive = False\<rparr>
      in w\<lparr>tw_tracker := (tw_tracker w)\<lparr>tr_events := buf\<rparr>,
            in_flight := in_flight w @ [rq], sent := sent w @ [rq]\<rparr>)"
    unfolding es using assms l' by (intro enqueue_reaching) simp
  show "sent (tr_run (map Enqueue es) w)
              = sent w @ [\<lparr>rq_events = map (stamp (tw_tracker w)) es, rq_keepalive = False\<rparr>]"
    using r assms by (simp add: Let_def)
  show "tr_events (tw_tracker (tr_run (map Enqueue es) w)) = map (stamp (tw_tracker w)) es"
    using r assms by (simp add: Let_def)
  show "tr_events (tw_tracker (tr_step (Respond (length (in_flight w)) ResponseOk)
                                        (tr_run (map Enqueue es) w))) = []"
    using r by (simp add: Let_def sendEvents_resume_def)
  have b: "tr_events (tw_tracker (tr_run (map Enqueue es) w)) = map (stamp (tw_tracker w)) es"
    using r assms by (simp add: Let_def)
  show "\<forall>acts. (\<forall>a\<in>set acts. \<not> is_ok_response a) \<longrightarrow>
                  prefix (map (stamp (tw_tracker w)) es)
                    (tr_events (tw_tracker (tr_run acts (tr_run (map Enqueue es) w))))"
    using buffer_kept_run[of _ "tr_run (map Enqueue es) w"] unfolding b by blast
  show "\<forall>acts i. i < length (in_flight (tr_run acts (tr_run (map Enqueue es) w))) \<longrightarrow>
                  tr_events (tw_tracker (tr_step (Respond i ResponseOk)
                                           (tr_run acts (tr_run (map Enqueue es) w)))) = []"
    using ok_response_empties by blast
next
  assume len: "length es = 9"
  have r: "tr_run (map Enqueue es) w
   = w\<lparr>tw_tracker := (tw_tracker w)\<lparr>tr_events := tr_events (tw_tracker w) @ map (stamp (tw_tracker w)) es\<rparr>\<rparr>"
    using assms len by (intro enqueue_below) simp
  show "sent (tr_run (map Enqueue es) w) = sent w"
    using r by simp
  have "es \<noteq> []" using len by auto
  then show "sent (tr_run (map Enqueue es @ [Tick]) w)
              = sent w @ [\<lparr>rq_events = map (stamp (tw_tracker w)) es, rq_keepalive = False\<rparr>]"
    using r assms by (simp add: tr_run_append tr_run_single interval_tick_def sendEvents_start_def Let_def)
next
  show "(sent (tr_step (Enqueue e) v) \<noteq> sent v) = (10 \<le> length (tr_events (tw_tracker v)) + 1)"
    by (rule enqueue_flush_iff)
qed

text \<open>Ten clicks, and nine clicks followed by a tick, on a tracker with an empty buffer.\<close>

theorem flush_at_threshold_witness:
  "tr_events (tw_tracker demo_tracker) = []
   \<and> length ten_clicks = 10
   \<and> length nine_clicks = 9
   \<and> sent (tr_run (map Enqueue ten_clicks) demo_tracker)
       = sent demo_tracker @ [\<lparr>rq_events = map (stamp (tw_tracker demo_tracker)) ten_clicks, rq_keepalive = False\<rparr>]
   \<and> tr_events (tw_tracker (tr_step (Respond (length (in_flight demo_tracker)) ResponseOk)
                                        (tr_run (map Enqueue ten_clicks) demo_tracker))) = []
   \<and> list_all (\<lambda>a. \<not> is_ok_response a) [Respond 0 NetworkError, Enqueue (click_event 11)]
   \<and> prefix (map (stamp (tw_tracker demo_tracker)) ten_clicks)
        (tr_events (tw_tracker (tr_run [Respond 0 NetworkError, Enqueue (click_event 11)]
                                  (tr_run (map Enqueue ten_clicks) demo_tracker))))
   \<and> 0 < length (in_flight (tr_run [Respond 0 NetworkError, Enqueue (click_event 11)]
                                  (tr_run (map Enqueue ten_clicks) demo_tracker)))
   \<and> tr_events (tw_tracker (tr_step (Respond 0 ResponseOk)
          (tr_run [Respond 0 NetworkError, Enqueue (click_event 11)]
             (tr_run (map Enqueue ten_clicks) demo_tracker)))) = []
   \<and> sent (tr_run (map Enqueue nine_clicks) demo_tracker) = sent demo_tracker
   \<and> sent (tr_run (map Enqueue nine_clicks @ [Tick]) demo_tracker)
       = sent demo_tracker @ [\<lparr>rq_events = map (stamp (tw_tracker demo_tracker)) nine_clicks, rq_keepalive = False\<rparr>]"
proof -
  have e: "tr_events (tw_tracker demo_tracker) = []" by code_simp
  have l10: "length ten_clicks = 10" and l9: "length nine_clicks = 9" by code_simp+
  have na: "list_all (\<lambda>a. \<not> is_ok_response a) [Respond 0 NetworkError, Enqueue (click_event 11)]"
    by (simp add: is_ok_response_def)
  then have na': "\<forall>a\<in>set [Respond 0 NetworkError, Enqueue (click_event 11)]. \<not> is_ok_response a"
    by (simp add: is_ok_response_def)
  have fl: "0 < length (in_flight (tr_run [Respond 0 NetworkError, Enqueue (click_event 11)]
                                  (tr_run (map Enqueue ten_clicks) demo_tracker)))"
    by code_simp
  note t10 = flush_at_threshold[OF e, of ten_clicks, THEN conjunct1, rule_format, OF l10]
  note t9 = flush_at_threshold[OF e, of nine_clicks, THEN conjunct2, THEN conjunct1, rule_format, OF l9]
  note k = t10[THEN conjunct2, THEN conjunct2, THEN conjunct2, THEN conjunct1, rule_format, OF na'[rule_format]]
  note o = t10[THEN conjunct2, THEN conjunct2, THEN conjunct2, THEN conjunct2, rule_format, OF fl]
  show ?thesis
    by (intro conjI e l10 l9 t10[THEN conjunct1] t10[THEN conjunct2, THEN conjunct2, THEN conjunct1]
          na k fl o t9[THEN conjunct1] t9[THEN conjunct2])
qed

text \<open>
  C4 as stated fails: right after the flush of ten events has started, the buffer holds
  all ten. In \<open>StandLogAnalytics\<close> the threshold is 5, not 10: the fifth event starts the
  flush (here its session request).
\<close>

theorem buffer_after_flush_counterexample:
  "length (sent (tr_run (map Enqueue ten_clicks) demo_tracker)) = 1
   \<and> length (tr_events (tw_tracker (tr_run (map Enqueue ten_clicks) demo_tracker))) = 10
   \<and> tr_events (tw_tracker (tr_run (map Enqueue ten_clicks) demo_tracker)) \<noteq> []
   \<and> net (sa_run (map Add (take 5 ten_clicks)) (new_analytics ''local'' ''anon'' []))
       = [SessionRequest ''anon'']"
  by (intro conjI; code_simp)

subsection \<open>Events added while a request is in flight\<close>

text \<open>
  C2 (what the code does). One event is buffered and sent by the timer; a second event is
  added while the request is in flight; the ok response empties the whole buffer. The
  second event was in no request and no later flush sends it. With ten events in flight,
  an eleventh starts a second request that carries the first ten again.
\<close>

theorem in_flight_event_lost:
  "map (\<lambda>r. map te_timestamp (rq_events r))
       (sent (tr_run [Enqueue (click_event 1), Tick, Enqueue (click_event 2), Respond 0 ResponseOk, Tick, Unload]
                     demo_tracker)) = [[1]]
   \<and> tr_events (tw_tracker (tr_run [Enqueue (click_event 1), Tick, Enqueue (click_event 2)] demo_tracker))
       = [stamp (tw_tracker demo_tracker) (click_event 1), stamp (tw_tracker demo_tracker) (click_event 2)]
   \<and> tr_events (tw_tracker (tr_run [Enqueue (click_event 1), Tick, Enqueue (click_event 2), Respond 0 ResponseOk]
                                    demo_tracker)) = []
   \<and> map (\<lambda>r. map te_timestamp (rq_events r))
       (sent (tr_run (map Enqueue ten_clicks @ [Enqueue (click_event 11)]) demo_tracker))
       = [[1, 2, 3, 4, 5, 6, 7, 8, 9, 10], [1, 2, 3, 4, 5, 6, 7, 8, 9, 10, 11]]"
  by (intro conjI; code_simp)

subsection \<open>A transmission that fails\<close>

text \<open>
  C3 (as the code has it). In \<open>StandLogTracker\<close>, when a request settles with a rejection
  or with a status that is not ok, the tracker is left as it was and nothing is sent at
  that point: nothing is discarded. A flush sends the whole buffer as its batch. Through
  the steps that follow the start of a flush (more events, more flushes, requests that
  fail), as long as none of them is the handling of an ok response, the events of the
  batch stay at the front of the buffer, and the next flush (timer or unload) sends them
  again, followed by the newer events. The handling of the ok response to any request in
  flight empties the whole buffer. In \<open>StandLogAnalytics\<close> a rejection leaves the buffer
  as it was too, while any response, whatever its status, empties it.
\<close>

theorem failed_batch_stays_buffered:
  "(r \<noteq> ResponseOk \<longrightarrow>
      tw_tracker (tr_step (Respond i r) w) = tw_tracker w \<and> sent (tr_step (Respond i r) w) = sent w)
   \<and> (tr_events (tw_tracker w) \<noteq> [] \<longrightarrow>
        sent (tr_step Tick w) = sent w @ [\<lparr>rq_events = tr_events (tw_tracker w), rq_keepalive = False\<rparr>]
        \<and> sent (tr_step Unload w) = sent w @ [\<lparr>rq_events = tr_events (tw_tracker w), rq_keepalive = True\<rparr>])
   \<and> (tr_events (tw_tracker w) \<noteq> [] \<and> (\<forall>a\<in>set acts. \<not> is_ok_response a) \<longrightarrow>
        (\<exists>newer.
           tr_events (tw_tracker (tr_run acts (tr_step Tick w))) = tr_events (tw_tracker w) @ newer
           \<and> sent (tr_step Tick (tr_run acts (tr_step Tick w)))
               = sent (tr_run acts (tr_step Tick w))
                 @ [\<lparr>rq_events = tr_events (tw_tracker w) @ newer, rq_keepalive = False\<rparr>]
           \<and> sent (tr_step Unload (tr_run acts (tr_step Tick w)))
               = sent (tr_run acts (tr_step Tick w))
                 @ [\<lparr>rq_events = tr_events (tw_tracker w) @ newer, rq_keepalive = True\<rparr>]))
   \<and> (j < length (in_flight w) \<longrightarrow> tr_events (tw_tracker (tr_step (Respond j ResponseOk) w)) = [])
   \<and> an (sa_events_resume Rejected v) = an v
   \<and> sa_events (an (sa_events_resume (Reply ok b) v)) = []"
proof (intro conjI impI)
  assume "r \<noteq> ResponseOk"
  then show "tw_tracker (tr_step (Respond i r) w) = tw_tracker w"
    and "sent (tr_step (Respond i r) w) = sent w"
    by (cases r; simp add: sendEvents_resume_def)+
next
  assume "tr_events (tw_tracker w) \<noteq> []"
  then show "sent (tr_step Tick w) = sent w @ [\<lparr>rq_events = tr_events (tw_tracker w), rq_keepalive = False\<rparr>]"
    and "sent (tr_step Unload w) = sent w @ [\<lparr>rq_events = tr_events (tw_tracker w), rq_keepalive = True\<rparr>]"
    by (rule flush_sends_buffer)+
next
  assume a: "tr_events (tw_tracker w) \<noteq> [] \<and> (\<forall>a\<in>set acts. \<not> is_ok_response a)"
  let ?w2 = "tr_run acts (tr_step Tick w)"
  from a have eq: "tw_tracker (tr_step Tick w) = tw_tracker w"
    by (intro flush_sends_buffer(3)) simp
  from a have "prefix (tr_events (tw_tracker (tr_step Tick w))) (tr_events (tw_tracker ?w2))"
    by (intro buffer_kept_run) simp
  then have "prefix (tr_events (tw_tracker w)) (tr_events (tw_tracker ?w2))"
    by (simp only: eq)
  then obtain newer where n: "tr_events (tw_tracker ?w2) = tr_events (tw_tracker w) @ newer"
    by (auto simp: prefix_def)
  with a have ne: "tr_events (tw_tracker ?w2) \<noteq> []" by simp
  from flush_sends_buffer(1,2)[OF ne] n
  show "\<exists>newer.
           tr_events (tw_tracker ?w2) = tr_events (tw_tracker w) @ newer
           \<and> sent (tr_step Tick ?w2)
               = sent ?w2 @ [\<lparr>rq_events = tr_events (tw_tracker w) @ newer, rq_keepalive = False\<rparr>]
           \<and> sent (tr_step Unload ?w2)
               = sent ?w2 @ [\<lparr>rq_events = tr_events (tw_tracker w) @ newer, rq_keepalive = True\<rparr>]"
    by simp
next
  assume "j < length (in_flight w)"
  then show "tr_events (tw_tracker (tr_step (Respond j ResponseOk) w)) = []"
    by (rule ok_response_empties)
next
  show "an (sa_events_resume Rejected v) = an v"
    by (simp add: sa_events_resume_def)
  show "sa_events (an (sa_events_resume (Reply ok b) v)) = []"
    by (simp add: sa_events_resume_def)
qed

text \<open>
  One event is flushed by the timer; a second event is added and the request fails on the
  network; the next tick sends the first event again, followed by the second.
\<close>

theorem failed_batch_stays_buffered_witness:
  "NetworkError \<noteq> ResponseOk
   \<and> tr_events (tw_tracker one_buffered) \<noteq> []
   \<and> list_all (\<lambda>a. \<not> is_ok_response a) [Enqueue (click_event 2), Respond 0 NetworkError]
   \<and> tw_tracker (tr_step (Respond 0 NetworkError) one_in_flight) = tw_tracker one_in_flight
   \<and> sent (tr_step (Respond 0 NetworkError) one_in_flight) = sent one_in_flight
   \<and> sent one_in_flight
       = sent one_buffered @ [\<lparr>rq_events = tr_events (tw_tracker one_buffered), rq_keepalive = False\<rparr>]
   \<and> (\<exists>newer.
         tr_events (tw_tracker (tr_run [Enqueue (click_event 2), Respond 0 NetworkError] one_in_flight))
           = tr_events (tw_tracker one_buffered) @ newer
         \<and> sent (tr_step Tick (tr_run [Enqueue (click_event 2), Respond 0 NetworkError] one_in_flight))
             = sent (tr_run [Enqueue (click_event 2), Respond 0 NetworkError] one_in_flight)
               @ [\<lparr>rq_events = tr_events (tw_tracker one_buffered) @ newer, rq_keepalive = False\<rparr>]
         \<and> sent (tr_step Unload (tr_run [Enqueue (click_event 2), Respond 0 NetworkError] one_in_flight))
             = sent (tr_run [Enqueue (click_event 2), Respond 0 NetworkError] one_in_flight)
               @ [\<lparr>rq_events = tr_events (tw_tracker one_buffered) @ newer, rq_keepalive = True\<rparr>])
   \<and> map (\<lambda>r. map te_timestamp (rq_events r))
        (sent (tr_step Tick (tr_run [Enqueue (click_event 2), Respond 0 NetworkError] one_in_flight)))
       = [[1], [1, 2]]
   \<and> 0 < length (in_flight one_in_flight)
   \<and> tr_events (tw_tracker (tr_step (Respond 0 ResponseOk) one_in_flight)) = []"
proof -
  have h1: "NetworkError \<noteq> ResponseOk" by simp
  have h2: "tr_events (tw_tracker one_buffered) \<noteq> []"
    by code_simp
  have h3: "list_all (\<lambda>a. \<not> is_ok_response a) [Enqueue (click_event 2), Respond 0 NetworkError]"
    by (simp add: is_ok_response_def)
  then have h3': "\<forall>a\<in>set [Enqueue (click_event 2), Respond 0 NetworkError]. \<not> is_ok_response a"
    by (simp add: is_ok_response_def)
  have h4: "0 < length (in_flight one_in_flight)"
    by code_simp
  have c: "map (\<lambda>r. map te_timestamp (rq_events r))
        (sent (tr_step Tick (tr_run [Enqueue (click_event 2), Respond 0 NetworkError] one_in_flight)))
       = [[1], [1, 2]]"
    by code_simp
  note t = failed_batch_stays_buffered[where r = NetworkError and i = 0 and w = one_in_flight
      and j = 0]
  note u = failed_batch_stays_buffered[where w = one_buffered
      and acts = "[Enqueue (click_event 2), Respond 0 NetworkError]", folded one_in_flight_def]
  note a = t[THEN conjunct1, rule_format, OF h1]
  note b = u[THEN conjunct2, THEN conjunct1, rule_format, OF h2, THEN conjunct1]
  note d = u[THEN conjunct2, THEN conjunct2, THEN conjunct1, rule_format, OF conjI[OF h2 h3']]
  note e = t[THEN conjunct2, THEN conjunct2, THEN conjunct2, THEN conjunct1, rule_format, OF h4]
  show ?thesis
    by (intro conjI h1 h2 h3 a[THEN conjunct1] a[THEN conjunct2] b d c h4 e)
qed

text \<open>
  C3 as stated fails: after a network error, and after a response that is not ok, the next
  tick sends the event of the failed batch a second time.
\<close>

theorem failed_batch_resent_counterexample:
  "map (\<lambda>r. map te_timestamp (rq_events r))
       (sent (tr_run [Enqueue (click_event 1), Tick, Respond 0 NetworkError, Tick] demo_tracker)) = [[1], [1]]
   \<and> map (\<lambda>r. map te_timestamp (rq_events r))
       (sent (tr_run [Enqueue (click_event 1), Tick, Respond 0 ResponseStatus, Tick] demo_tracker)) = [[1], [1]]"
  by (intro conjI; code_simp)

subsection \<open>The session call comes first\<close>

lemma adopted_id_snoc:
  "adopted_id sid0 (n @ [x]) = (case x of SessionSettled (Some i) \<Rightarrow> i | _ \<Rightarrow> adopted_id sid0 n)"
  by (simp add: adopted_id_def split: net_entry.splits option.splits)

lemma ensureSession_resume_shape:
  "\<exists>x. net (ensureSession_resume r w) = net w @ [SessionSettled x]
       \<and> tasks (ensureSession_resume r w) = tasks w
       \<and> sa_sessionId (an (ensureSession_resume r w))
           = (case x of Some i \<Rightarrow> i | None \<Rightarrow> sa_sessionId (an w))"
proof (cases r)
  case Rejected
  then show ?thesis
    by (intro exI[of _ None]) (simp add: ensureSession_resume_def)
next
  case (Reply ok b)
  show ?thesis
  proof (cases ok)
    case False
    with Reply show ?thesis
      by (intro exI[of _ None]) (simp add: ensureSession_resume_def)
  next
    case True
    show ?thesis
    proof (cases b)
      case BadJson
      with Reply True show ?thesis
        by (intro exI[of _ None]) (simp add: ensureSession_resume_def)
    next
      case (Json i)
      show ?thesis
      proof (cases "truthy i")
        case t: True
        then obtain v where "i = Some v" by (cases i) simp_all
        with Reply True Json t show ?thesis
          by (intro exI[of _ "Some v"]) (simp add: ensureSession_resume_def)
      next
        case f: False
        with Reply True Json show ?thesis
          by (intro exI[of _ None]) (simp add: ensureSession_resume_def)
      qed
    qed
  qed
qed

lemma snoc_split:
  assumes "n @ [x] = pre @ y # post"
  shows "(post = [] \<and> pre = n \<and> y = x) \<or> (\<exists>post'. post = post' @ [x] \<and> n = pre @ y # post')"
proof (cases post rule: rev_cases)
  case Nil
  with assms show ?thesis by simp
next
  case (snoc post' z)
  with assms have "n @ [x] = (pre @ y # post') @ [z]" by simp
  then have "n = pre @ y # post'" and "x = z" by simp_all
  with snoc show ?thesis by simp
qed

lemma ordered_snoc_request:
  "ordered sid0 n \<Longrightarrow> ordered sid0 (n @ [SessionRequest a])"
  unfolding ordered_def
  by (intro conjI allI impI; drule snoc_split; elim disjE conjE exE; simp; blast)

lemma ordered_snoc_settled:
  "ordered sid0 n \<Longrightarrow> \<exists>e\<in>set n. is_request e \<Longrightarrow> ordered sid0 (n @ [SessionSettled i])"
  unfolding ordered_def
  by (intro conjI allI impI; drule snoc_split; elim disjE conjE exE; simp; blast)

lemma ordered_snoc_events:
  "ordered sid0 n \<Longrightarrow> \<exists>e\<in>set n. is_settled e \<Longrightarrow> ordered sid0 (n @ [EventsRequest (adopted_id sid0 n) es b])"
  unfolding ordered_def
  by (intro conjI allI impI; drule snoc_split; elim disjE conjE exE; simp; blast)

lemma set_drop_nth: "set (drop_nth i xs) \<subseteq> set xs"
  by (auto simp: drop_nth_def dest: in_set_takeD in_set_dropD)

lemma sa_sendEvents_inv:
  assumes "sa_inv sid0 w"
  shows "sa_inv sid0 (sa_sendEvents b w)"
proof -
  have req: "is_request (SessionRequest (sa_anonymousId (an w)))"
    by (simp add: is_request_def)
  have ns: "\<not> is_settled (SessionRequest (sa_anonymousId (an w)))"
    by (simp add: is_settled_def)
  show ?thesis
    using assms ordered_snoc_request[of sid0 "net w" "sa_anonymousId (an w)"] req
    by (auto simp: sa_inv_def sa_sendEvents_def adopted_id_snoc is_after_ensure_def is_await_session_def)
qed

lemma sa_inv_events: "sa_inv sid0 (w\<lparr>an := (an w)\<lparr>sa_events := es\<rparr>\<rparr>) = sa_inv sid0 w"
  by (simp add: sa_inv_def)

lemma sa_addEvent_inv: "sa_inv sid0 w \<Longrightarrow> sa_inv sid0 (sa_addEvent e w)"
  using sa_sendEvents_inv[of sid0 "w\<lparr>an := (an w)\<lparr>sa_events := sa_events (an w) @ [e]\<rparr>\<rparr>" False]
  by (simp add: sa_addEvent_def Let_def sa_inv_events)

lemma sa_inv_drop:
  assumes "sa_inv sid0 w"
  shows "sa_inv sid0 (w\<lparr>tasks := drop_nth i (tasks w)\<rparr>)"
  using assms set_drop_nth[of i "tasks w"] by (auto simp: sa_inv_def)

lemma ensureSession_resume_inv:
  assumes inv: "sa_inv sid0 w" and req: "\<exists>e\<in>set (net w). is_request e"
  shows "sa_inv sid0 (ensureSession_resume r w) \<and> (\<exists>e\<in>set (net (ensureSession_resume r w)). is_settled e)
         \<and> tasks (ensureSession_resume r w) = tasks w"
proof -
  from ensureSession_resume_shape[of r w]
  obtain x where n: "net (ensureSession_resume r w) = net w @ [SessionSettled x]"
    and t: "tasks (ensureSession_resume r w) = tasks w"
    and s: "sa_sessionId (an (ensureSession_resume r w)) = (case x of Some i \<Rightarrow> i | None \<Rightarrow> sa_sessionId (an w))"
    by blast
  have o: "ordered sid0 (net w @ [SessionSettled x])"
    using inv req by (intro ordered_snoc_settled) (simp_all add: sa_inv_def)
  have st: "is_settled (SessionSettled x)" by (simp add: is_settled_def)
  have "sa_sessionId (an (ensureSession_resume r w)) = adopted_id sid0 (net (ensureSession_resume r w))"
    using inv s n by (simp add: adopted_id_snoc sa_inv_def split: option.splits)
  moreover have "\<exists>e\<in>set (net (ensureSession_resume r w)). is_settled e"
    using n st by auto
  moreover have "\<forall>t\<in>set (tasks (ensureSession_resume r w)). is_await_session t
                   \<longrightarrow> (\<exists>e\<in>set (net (ensureSession_resume r w)). is_request e)"
    using inv n t by (auto simp: sa_inv_def)
  ultimately show ?thesis
    using o n t unfolding sa_inv_def by auto
qed

lemma sa_resume_inv:
  assumes inv: "sa_inv sid0 w"
    and af: "is_after_ensure t \<longrightarrow> (\<exists>e\<in>set (net w). is_settled e)"
    and aw: "is_await_session t \<longrightarrow> (\<exists>e\<in>set (net w). is_request e)"
  shows "sa_inv sid0 (sa_resume t r w)"
proof (cases t)
  case (AwaitSession b)
  with aw have "\<exists>e\<in>set (net w). is_request e" by (simp add: is_await_session_def)
  from ensureSession_resume_inv[OF inv this, of r]
  have i: "sa_inv sid0 (ensureSession_resume r w)"
    and s: "\<exists>e\<in>set (net (ensureSession_resume r w)). is_settled e"
    by simp_all
  then show ?thesis
    using AwaitSession by (auto simp: sa_inv_def Let_def is_await_session_def)
next
  case (AfterEnsure b)
  with af have s: "\<exists>e\<in>set (net w). is_settled e" by (simp add: is_after_ensure_def)
  have o: "ordered sid0 (net w @ [EventsRequest (sa_sessionId (an w)) (sa_events (an w)) b])"
    using inv ordered_snoc_events[OF _ s, of sid0 "sa_events (an w)" b] by (simp add: sa_inv_def)
  have "\<not> is_request (EventsRequest (sa_sessionId (an w)) (sa_events (an w)) b)"
    by (simp add: is_request_def)
  then show ?thesis
    using inv o AfterEnsure
    by (auto simp: sa_inv_def sa_send_payload_def adopted_id_snoc is_after_ensure_def is_await_session_def)
next
  case (AwaitEvents b)
  then show ?thesis
    using inv by (cases r) (simp_all add: sa_events_resume_def sa_inv_def)
qed

lemma sa_step_inv: "sa_inv sid0 w \<Longrightarrow> sa_inv sid0 (sa_step a w)"
proof (cases a)
  case (Add e)
  assume "sa_inv sid0 w"
  with Add show ?thesis by (simp add: sa_addEvent_inv)
next
  case BeforeUnload
  assume "sa_inv sid0 w"
  with BeforeUnload show ?thesis by (simp add: sa_sendEvents_inv)
next
  case (Resume i r)
  assume inv: "sa_inv sid0 w"
  show ?thesis
  proof (cases "i < length (tasks w)")
    case True
    then have mem: "tasks w ! i \<in> set (tasks w)" by simp
    let ?w = "w\<lparr>tasks := drop_nth i (tasks w)\<rparr>"
    have i': "sa_inv sid0 ?w" using inv by (rule sa_inv_drop)
    have "is_after_ensure (tasks w ! i) \<longrightarrow> (\<exists>e\<in>set (net ?w). is_settled e)"
      and "is_await_session (tasks w ! i) \<longrightarrow> (\<exists>e\<in>set (net ?w). is_request e)"
      using inv mem by (auto simp: sa_inv_def)
    from sa_resume_inv[OF i' this] True Resume show ?thesis by simp
  next
    case False
    with inv Resume show ?thesis by simp
  qed
qed

lemma sa_run_inv: "sa_inv sid0 w \<Longrightarrow> sa_inv sid0 (sa_run acts w)"
  by (induction acts arbitrary: w) (simp_all add: sa_run_def sa_step_inv)

lemma new_analytics_inv: "sa_inv sid0 (new_analytics sid0 aid es0)"
  by (simp add: sa_inv_def new_analytics_def adopted_id_def ordered_def)

text \<open>
  In every run of \<open>StandLogAnalytics\<close> from its constructor, each events request comes
  after the end of a session call (which itself comes after a session request), and it
  carries the session id in force at that point: the initial id, replaced by the id of
  every ok session response that had one. Handling an ok session response with a
  non-empty id sets the session id to it and marks the session as created. The end of a
  session call is its end however the call went.
\<close>

lemma events_request_after_session_call:
  "(\<forall>pre s es b post.
       net (sa_run acts (new_analytics sid0 aid es0)) = pre @ EventsRequest s es b # post \<longrightarrow>
         (\<exists>e\<in>set pre. is_settled e) \<and> s = adopted_id sid0 pre)
   \<and> (\<forall>pre i post.
       net (sa_run acts (new_analytics sid0 aid es0)) = pre @ SessionSettled i # post \<longrightarrow>
         (\<exists>a. SessionRequest a \<in> set pre))
   \<and> (truthy i \<longrightarrow>
         sa_sessionId (an (ensureSession_resume (Reply True (Json i)) w)) = the i
         \<and> sessionCreated (an (ensureSession_resume (Reply True (Json i)) w)))"
proof -
  have "sa_inv sid0 (sa_run acts (new_analytics sid0 aid es0))"
    using new_analytics_inv by (rule sa_run_inv)
  then have o: "ordered sid0 (net (sa_run acts (new_analytics sid0 aid es0)))"
    by (simp add: sa_inv_def)
  have r: "\<And>e. is_request e \<Longrightarrow> \<exists>a. e = SessionRequest a"
    by (simp add: is_request_def split: net_entry.splits)
  have 1: "\<forall>pre s es b post.
       net (sa_run acts (new_analytics sid0 aid es0)) = pre @ EventsRequest s es b # post \<longrightarrow>
         (\<exists>e\<in>set pre. is_settled e) \<and> s = adopted_id sid0 pre"
    using o unfolding ordered_def by blast
  have 2: "\<forall>pre i post.
       net (sa_run acts (new_analytics sid0 aid es0)) = pre @ SessionSettled i # post \<longrightarrow>
         (\<exists>a. SessionRequest a \<in> set pre)"
  proof (intro allI impI)
    fix pre i post
    assume "net (sa_run acts (new_analytics sid0 aid es0)) = pre @ SessionSettled i # post"
    with o obtain e where "e \<in> set pre" "is_request e" unfolding ordered_def by blast
    with r show "\<exists>a. SessionRequest a \<in> set pre" by blast
  qed
  have 3: "truthy i \<longrightarrow>
         sa_sessionId (an (ensureSession_resume (Reply True (Json i)) w)) = the i
         \<and> sessionCreated (an (ensureSession_resume (Reply True (Json i)) w))"
    by (simp add: ensureSession_resume_def)
  from 1 2 3 show ?thesis by blast
qed

text \<open>
  C6 (what the code does). When the session request is answered with the id \<open>srv1\<close>, the
  session is marked as created and the events request carries \<open>srv1\<close>. When the session
  request is rejected, or answered with a status that is not ok, \<open>ensureSession\<close> catches
  the failure and creates no session: \<open>sessionCreated\<close> stays false and the session id
  stays the local one. \<open>sendEvents\<close> goes on all the same and posts the five events under
  the local id, which no server issued; the response to that request then empties the
  buffer, and no session has been created.
\<close>

theorem events_sent_without_session:
  "net served = [SessionRequest ''anon'', SessionSettled (Some ''srv1''),
                 EventsRequest ''srv1'' (take 5 ten_clicks) False]
   \<and> sessionCreated (an served)
   \<and> net unserved = [SessionRequest ''anon'', SessionSettled None,
                     EventsRequest ''local'' (take 5 ten_clicks) False]
   \<and> \<not> sessionCreated (an unserved)
   \<and> sa_sessionId (an unserved) = ''local''
   \<and> net refused = [SessionRequest ''anon'', SessionSettled None,
                    EventsRequest ''local'' (take 5 ten_clicks) False]
   \<and> \<not> sessionCreated (an refused)
   \<and> sa_events (an unserved) = take 5 ten_clicks
   \<and> sa_events (an unserved_done) = []
   \<and> \<not> sessionCreated (an unserved_done)"
  by (intro conjI; code_simp)
end
